theory Spec2Isabelle
  imports Main "HOL-Library.AList"
begin

section \<open>The connection core of the RPC runtime (yb/rpc/connection.cc)\<close>

text \<open>
  A shallow embedding of \<^verbatim>\<open>yb::rpc::Connection\<close> and of its three subclasses
  \<^verbatim>\<open>YBConnection\<close>, \<^verbatim>\<open>RedisConnection\<close> and \<^verbatim>\<open>CQLConnection\<close>.
  A connection is a record of its member variables; every member function takes the
  record and returns the updated one. Objects that the connection only holds pointers to
  (the \<^verbatim>\<open>OutboundCall\<close> objects shared with the callers) live in a store indexed by
  handles. What the connection sends to its collaborators (log lines, calls handed to the
  messenger, tear-down requests to the reactor, transfer callback edges) is kept in lists,
  oldest first.
\<close>

subsection \<open>Statuses, logging\<close>

datatype status_code =
  NetworkError | RuntimeError | Corruption | InvalidArgument | ServiceUnavailable | Aborted

text \<open>\<^verbatim>\<open>Status\<close>: OK, or a code with the two message parts of the \<^verbatim>\<open>STATUS\<close> macro.\<close>

datatype status = OK | Status status_code string string

fun ok :: "status \<Rightarrow> bool" where
  "ok OK = True"
| "ok (Status code msg msg2) = False"

datatype log_level = WARNING | VLOG nat | DVLOG nat

type_synonym log_entry = "log_level \<times> string"

text \<open>\<^verbatim>\<open>Substitute("$0", call_id)\<close>: the decimal text of a call id.\<close>

fun digit_char :: "nat \<Rightarrow> char" where
  "digit_char n = (''0123456789'' ! (n mod 10))"

fun dec_nat :: "nat \<Rightarrow> string" where
  "dec_nat n = (if n < 10 then [digit_char n] else dec_nat (n div 10) @ [digit_char n])"

declare dec_nat.simps [simp del]

definition Substitute0 :: "int \<Rightarrow> string" where
  "Substitute0 i = (if i < 0 then CHR ''-'' # dec_nat (nat (- i)) else dec_nat (nat i))"

subsection \<open>Calls\<close>

text \<open>
  The state transitions a connection invokes on an \<^verbatim>\<open>OutboundCall\<close>. The last three
  are the terminal edges: response delivered, timed out, failed with a status.
\<close>

datatype call_edge = Queued | Sent | Response int string | TimedOut | Failed status

fun terminal :: "call_edge \<Rightarrow> bool" where
  "terminal Queued = False"
| "terminal Sent = False"
| "terminal (Response call_id body) = True"
| "terminal TimedOut = True"
| "terminal (Failed s) = True"

text \<open>
  Modelled from the spec: the \<^verbatim>\<open>OutboundCall\<close> class (outbound_call.cc is not among
  the sources). The call object keeps its call id, "assigned on enqueue", and moves
  through the states queued, sent, timed-out, finished; it is modelled as the list of the
  transitions invoked on it. \<open>serialize_status\<close> and \<open>request_slices\<close> are what
  \<^verbatim>\<open>SerializeTo\<close> returns and produces, \<open>timeout\<close> is the controller's timeout
  (\<open>None\<close> when not initialized).
\<close>

record outbound_call =
  call_id :: "int option"
  serialize_status :: status
  request_slices :: "string list"
  timeout :: "nat option"
  history :: "call_edge list"

definition call_id_assigned :: "outbound_call \<Rightarrow> bool" where
  "call_id_assigned call = (call_id call \<noteq> None)"

definition set_call_id :: "int \<Rightarrow> outbound_call \<Rightarrow> outbound_call" where
  "set_call_id i call = call\<lparr>call_id := Some i\<rparr>"

definition SetQueued :: "outbound_call \<Rightarrow> outbound_call" where
  "SetQueued call = call\<lparr>history := history call @ [Queued]\<rparr>"

definition SetSent :: "outbound_call \<Rightarrow> outbound_call" where
  "SetSent call = call\<lparr>history := history call @ [Sent]\<rparr>"

definition SetTimedOut :: "outbound_call \<Rightarrow> outbound_call" where
  "SetTimedOut call = call\<lparr>history := history call @ [TimedOut]\<rparr>"

definition SetFailed :: "status \<Rightarrow> outbound_call \<Rightarrow> outbound_call" where
  "SetFailed s call = call\<lparr>history := history call @ [Failed s]\<rparr>"

definition SetResponse :: "int \<Rightarrow> string \<Rightarrow> outbound_call \<Rightarrow> outbound_call" where
  "SetResponse i body call = call\<lparr>history := history call @ [Response i body]\<rparr>"

definition IsFinished :: "outbound_call \<Rightarrow> bool" where
  "IsFinished call = list_ex terminal (history call)"

text \<open>The terminal edges that have fired on a call.\<close>

definition terminal_edges :: "outbound_call \<Rightarrow> call_edge list" where
  "terminal_edges call = filter terminal (history call)"

text \<open>A call as its caller hands it over: no call id yet, no transition yet.\<close>

definition fresh_call :: "outbound_call \<Rightarrow> bool" where
  "fresh_call call = (call_id call = None \<and> history call = [])"

text \<open>An inbound call parsed on a server connection; only YB calls carry a call id.\<close>

datatype inbound_call =
  YBInboundCall int string | RedisInboundCall string | CQLInboundCall string

subsection \<open>Transfers\<close>

text \<open>
  An inbound transfer. The framers are not among the sources: a transfer carries what the
  connection reads from it, namely the two predicates, the status that
  \<^verbatim>\<open>ParseFrom\<close> will return for it with the call id and body of the parsed message,
  and (Redis) the transfer that \<^verbatim>\<open>ExcessData\<close> builds from the trailing bytes.
\<close>

datatype inbound_transfer =
  InboundTransfer (TransferStarted: bool) (TransferFinished: bool) (parse_status: status)
    (parsed_call_id: int) (parsed_body: string) (ExcessData: "inbound_transfer option")

datatype transfer_callbacks =
  CallTransferCallbacks nat
| YBResponseTransferCallbacks int
| RedisResponseTransferCallbacks
| CQLResponseTransferCallbacks

record outbound_transfer =
  transfer_id :: nat
  slices :: "string list"
  callbacks :: transfer_callbacks

datatype callback_edge = TransferFinishedEdge | TransferAbortedEdge status

text \<open>A pending entry (\<^verbatim>\<open>CallAwaitingResponse\<close>): the call handle and the one-shot timer.\<close>

record car =
  car_call :: "nat option"
  timeout_timer :: "nat option"

subsection \<open>The connection\<close>

datatype direction = CLIENT | SERVER

datatype protocol = YB | Redis | CQL

record connection =
  protocol :: protocol
  direction :: direction
  is_epoll_registered :: bool
  next_call_id :: int
  negotiation_complete :: bool
  shutdown_status :: status
  awaiting_response :: "(int \<times> car) list"
  calls_being_handled :: "(int \<times> inbound_call) list"
  outbound_transfers :: "outbound_transfer list"
  inbound :: "inbound_transfer option"
  processing_call :: bool
  read_io_active :: bool
  write_io_active :: bool
  socket_closed :: bool
  calls :: "nat \<Rightarrow> outbound_call"
  next_transfer_id :: nat
  callback_edges :: "(nat \<times> callback_edge) list"
  messenger_queue :: "inbound_call list"
  destroy_requests :: "status list"
  log_entries :: "log_entry list"
  process_aborted :: "string option"

text \<open>
  The two maps \<^verbatim>\<open>awaiting_response_\<close> and \<^verbatim>\<open>calls_being_handled_\<close> are association
  lists: the operations below keep their keys distinct, and \<^verbatim>\<open>Shutdown\<close> walks
  \<^verbatim>\<open>awaiting_response_\<close> in list order (the source leaves the order of the walk open,
  and no property below depends on it). Timestamps are left out.
  \<open>calls\<close> is the store of the \<^verbatim>\<open>OutboundCall\<close> objects, \<open>next_transfer_id\<close> numbers
  the \<^verbatim>\<open>OutboundTransfer\<close> objects as they are allocated, \<open>callback_edges\<close> lists the
  \<^verbatim>\<open>TransferCallbacks\<close> notifications that fired, \<open>messenger_queue\<close> the calls given to
  \<^verbatim>\<open>QueueInboundCall\<close>, \<open>destroy_requests\<close> the pending \<^verbatim>\<open>DestroyConnection\<close>
  requests, and \<open>process_aborted\<close> is set when a \<^verbatim>\<open>CHECK\<close> fails (the process stops
  there).
\<close>

definition Connection :: "protocol \<Rightarrow> direction \<Rightarrow> (nat \<Rightarrow> outbound_call) \<Rightarrow> connection" where
  "Connection p d store =
     \<lparr> protocol = p, direction = d, is_epoll_registered = False, next_call_id = 1,
       negotiation_complete = False, shutdown_status = OK, awaiting_response = [],
       calls_being_handled = [], outbound_transfers = [], inbound = None,
       processing_call = False, read_io_active = False, write_io_active = False,
       socket_closed = False, calls = store, next_transfer_id = 0, callback_edges = [],
       messenger_queue = [], destroy_requests = [], log_entries = [],
       process_aborted = None \<rparr>"

definition LOG :: "log_level \<Rightarrow> string \<Rightarrow> connection \<Rightarrow> connection" where
  "LOG level msg c = c\<lparr>log_entries := log_entries c @ [(level, msg)]\<rparr>"

definition CHECK_failed :: "string \<Rightarrow> connection \<Rightarrow> connection" where
  "CHECK_failed msg c = c\<lparr>process_aborted := Some msg\<rparr>"

definition update_call :: "nat \<Rightarrow> (outbound_call \<Rightarrow> outbound_call) \<Rightarrow> connection \<Rightarrow> connection" where
  "update_call h f c = c\<lparr>calls := (calls c)(h := f (calls c h))\<rparr>"

text \<open>
  Modelled from the spec: \<^verbatim>\<open>GetNextCallId\<close> (connection.h is not among the sources):
  "assign next call-id"; call ids are "monotonically increasing per-connection, starting
  at 1" and "not reused within the connection's lifetime". The counter is a number that
  grows by one; what the source shows is that the id it yields is stored in an
  \<^verbatim>\<open>int32_t\<close> (\<open>int32_t\<close> below: the value as 32 bits, two's complement).
\<close>

definition GetNextCallId :: "connection \<Rightarrow> int \<times> connection" where
  "GetNextCallId c = (next_call_id c, c\<lparr>next_call_id := next_call_id c + 1\<rparr>)"

definition int32_t :: "int \<Rightarrow> int" where
  "int32_t x = (x + 2147483648) mod 4294967296 - 2147483648"

text \<open>
  Modelled from the spec: \<^verbatim>\<open>ReactorThread::DestroyConnection\<close> and the messenger's
  \<^verbatim>\<open>QueueInboundCall\<close> (reactor.cc and messenger.cc are not among the sources).
  \<^verbatim>\<open>DestroyConnection(self, status)\<close> is an output to the reactor, a "request [for]
  terminal tear-down"; the reactor thread serves it by running \<^verbatim>\<open>Shutdown(status)\<close>
  (\<open>ServeDestroyRequests\<close> below). A parsed inbound call is "handed to a messenger
  queue".
\<close>

definition DestroyConnection :: "status \<Rightarrow> connection \<Rightarrow> connection" where
  "DestroyConnection s c = c\<lparr>destroy_requests := destroy_requests c @ [s]\<rparr>"

definition QueueInboundCall :: "inbound_call \<Rightarrow> connection \<Rightarrow> connection" where
  "QueueInboundCall call c = c\<lparr>messenger_queue := messenger_queue c @ [call]\<rparr>"

definition EpollRegister :: "connection \<Rightarrow> connection" where
  "EpollRegister c =
     (let c1 = (if direction c = CLIENT \<and> negotiation_complete c
                then c\<lparr>write_io_active := True\<rparr> else c)
      in c1\<lparr>read_io_active := True, is_epoll_registered := True\<rparr>)"

definition MarkNegotiationComplete :: "connection \<Rightarrow> connection" where
  "MarkNegotiationComplete c = c\<lparr>negotiation_complete := True\<rparr>"

definition Idle :: "connection \<Rightarrow> bool" where
  "Idle c =
     (if (case inbound c of None \<Rightarrow> False | Some t \<Rightarrow> TransferStarted t) then False
      else if outbound_transfers c \<noteq> [] then False
      else if awaiting_response c \<noteq> [] then False
      else if calls_being_handled c \<noteq> [] then False
      else if \<not> negotiation_complete c then False
      else True)"

subsection \<open>Server side: handling a finished inbound transfer\<close>

text \<open>\<^verbatim>\<open>InsertIfNotPresent\<close> and \<^verbatim>\<open>EraseKeyReturnValuePtr\<close> of gutil/map-util.h.\<close>

definition InsertIfNotPresent :: "'k \<Rightarrow> 'v \<Rightarrow> ('k \<times> 'v) list \<Rightarrow> bool \<times> ('k \<times> 'v) list" where
  "InsertIfNotPresent k v m =
     (case map_of m k of None \<Rightarrow> (True, m @ [(k, v)]) | Some old \<Rightarrow> (False, m))"

definition EraseKeyReturnValuePtr :: "'k \<Rightarrow> ('k \<times> 'v) list \<Rightarrow> 'v option \<times> ('k \<times> 'v) list" where
  "EraseKeyReturnValuePtr k m = (map_of m k, AList.delete k m)"

definition YB_HandleIncomingCall :: "inbound_transfer \<Rightarrow> connection \<Rightarrow> connection" where
  "YB_HandleIncomingCall transfer c =
     (let s = parse_status transfer;
          call = YBInboundCall (parsed_call_id transfer) (parsed_body transfer)
      in if \<not> ok s then DestroyConnection s (LOG WARNING ''received bad data'' c)
         else (case InsertIfNotPresent (parsed_call_id transfer) call (calls_being_handled c) of
                 (False, m) \<Rightarrow>
                   DestroyConnection
                     (Status RuntimeError ''Received duplicate call id''
                        (Substitute0 (parsed_call_id transfer)))
                     (LOG WARNING ''received call ID but was already processing this ID! Ignoring'' c)
               | (True, m) \<Rightarrow> QueueInboundCall call (c\<lparr>calls_being_handled := m\<rparr>)))"

definition Redis_HandleIncomingCall :: "inbound_transfer \<Rightarrow> connection \<Rightarrow> connection" where
  "Redis_HandleIncomingCall transfer c =
     (let s = parse_status transfer
      in if \<not> ok s then DestroyConnection s (LOG WARNING ''received bad data'' c)
         else QueueInboundCall (RedisInboundCall (parsed_body transfer))
                (c\<lparr>processing_call := True\<rparr>))"

text \<open>
  \<^verbatim>\<open>inbound_\<close> is moved into \<^verbatim>\<open>HandleIncomingCall\<close> and then reset to the excess
  data. The callers guarantee that \<^verbatim>\<open>inbound_\<close> is set; on a null \<^verbatim>\<open>inbound_\<close> the
  source dereferences a null pointer, which the model records as the end of the process.
\<close>

definition Redis_HandleFinishedTransfer :: "connection \<Rightarrow> connection" where
  "Redis_HandleFinishedTransfer c =
     (if processing_call c
      then LOG (DVLOG 4) ''Already handling a call from the client. Need to wait.'' c
      else (case inbound c of
              None \<Rightarrow> CHECK_failed ''null inbound transfer'' c
            | Some t \<Rightarrow>
                (let next_transfer = ExcessData t;
                     c1 = Redis_HandleIncomingCall t (c\<lparr>inbound := None\<rparr>)
                 in c1\<lparr>inbound := next_transfer\<rparr>)))"

definition Redis_FinishedHandlingACall :: "connection \<Rightarrow> connection" where
  "Redis_FinishedHandlingACall c =
     (let c1 = c\<lparr>processing_call := False\<rparr>
      in case inbound c1 of
           None \<Rightarrow> c1
         | Some t \<Rightarrow> if TransferFinished t then Redis_HandleFinishedTransfer c1 else c1)"

definition CQL_HandleIncomingCall :: "inbound_transfer \<Rightarrow> connection \<Rightarrow> connection" where
  "CQL_HandleIncomingCall transfer c =
     (let s = parse_status transfer
      in if \<not> ok s then LOG WARNING ''received bad data'' c
         else QueueInboundCall (CQLInboundCall (parsed_body transfer)) c)"

definition CQL_HandleFinishedTransfer :: "connection \<Rightarrow> connection" where
  "CQL_HandleFinishedTransfer c =
     (if direction c \<noteq> SERVER then CHECK_failed ''Invalid direction for CQL'' c
      else (case inbound c of
              None \<Rightarrow> CHECK_failed ''null inbound transfer'' c
            | Some t \<Rightarrow> CQL_HandleIncomingCall t (c\<lparr>inbound := None\<rparr>)))"

definition CQL_FinishedHandlingACall :: "connection \<Rightarrow> connection" where
  "CQL_FinishedHandlingACall c =
     (case inbound c of
        None \<Rightarrow> c
      | Some t \<Rightarrow> if TransferFinished t then CQL_HandleFinishedTransfer c else c)"

subsection \<open>Outbound transfers and their callbacks\<close>

text \<open>
  The destructors of the response callbacks: the YB one erases the call from
  \<^verbatim>\<open>calls_being_handled_\<close>, the Redis and CQL ones run
  \<^verbatim>\<open>FinishedHandlingACall\<close>; \<^verbatim>\<open>CallTransferCallbacks\<close> has none of its own.
\<close>

fun delete_callbacks :: "transfer_callbacks \<Rightarrow> connection \<Rightarrow> connection" where
  "delete_callbacks (CallTransferCallbacks h) c = c"
| "delete_callbacks (YBResponseTransferCallbacks i) c =
     c\<lparr>calls_being_handled := snd (EraseKeyReturnValuePtr i (calls_being_handled c))\<rparr>"
| "delete_callbacks RedisResponseTransferCallbacks c = Redis_FinishedHandlingACall c"
| "delete_callbacks CQLResponseTransferCallbacks c = CQL_FinishedHandlingACall c"

fun NotifyTransferFinished :: "transfer_callbacks \<Rightarrow> connection \<Rightarrow> connection" where
  "NotifyTransferFinished (CallTransferCallbacks h) c =
     delete_callbacks (CallTransferCallbacks h)
       (if IsFinished (calls c h) then c else update_call h SetSent c)"
| "NotifyTransferFinished cb c = delete_callbacks cb c"

fun NotifyTransferAborted :: "transfer_callbacks \<Rightarrow> status \<Rightarrow> connection \<Rightarrow> connection" where
  "NotifyTransferAborted (CallTransferCallbacks h) s c =
     delete_callbacks (CallTransferCallbacks h)
       (LOG (VLOG 1) ''Connection torn down before call could send its call'' c)"
| "NotifyTransferAborted cb s c =
     delete_callbacks cb
       (LOG WARNING ''Connection torn down before call could send its response'' c)"

text \<open>
  Modelled from the spec: the \<^verbatim>\<open>OutboundTransfer\<close> class (transfer.cc is not among the
  sources). "On completion, [SendBuffer] invokes the attached completion callback with a
  finished signal. On connection shutdown before completion, invokes the same callback
  with an aborted signal carrying the shutdown status. Exactly one of these two callback
  edges fires per outbound transfer." \<open>SendBuffer\<close> takes what the socket did with the
  transfer: the status returned and whether the transfer is finished after the call.
  Deleting an unfinished transfer, which is all \<^verbatim>\<open>Shutdown\<close> does with the queued
  ones, is the abort with the connection's shutdown status.
\<close>

definition fire :: "outbound_transfer \<Rightarrow> callback_edge \<Rightarrow> connection \<Rightarrow> connection" where
  "fire t e c = c\<lparr>callback_edges := callback_edges c @ [(transfer_id t, e)]\<rparr>"

definition Abort :: "outbound_transfer \<Rightarrow> status \<Rightarrow> connection \<Rightarrow> connection" where
  "Abort t s c = NotifyTransferAborted (callbacks t) s (fire t (TransferAbortedEdge s) c)"

definition SendBuffer :: "outbound_transfer \<Rightarrow> status \<times> bool \<Rightarrow> connection \<Rightarrow> connection" where
  "SendBuffer t r c =
     (if ok (fst r) \<and> snd r
      then NotifyTransferFinished (callbacks t) (fire t TransferFinishedEdge c) else c)"

definition delete_unfinished :: "outbound_transfer \<Rightarrow> connection \<Rightarrow> connection" where
  "delete_unfinished t c = Abort t (shutdown_status c) c"

subsection \<open>Shutdown\<close>

text \<open>The loop over \<^verbatim>\<open>awaiting_response_\<close>: fail every call whose handle is still set.\<close>

fun fail_awaiting :: "status \<Rightarrow> (int \<times> car) list \<Rightarrow> (nat \<Rightarrow> outbound_call) \<Rightarrow> (nat \<Rightarrow> outbound_call)" where
  "fail_awaiting s [] store = store"
| "fail_awaiting s ((i, entry) # rest) store =
     fail_awaiting s rest
       (case car_call entry of
          None \<Rightarrow> store
        | Some h \<Rightarrow> store(h := SetFailed s (store h)))"

text \<open>
  The loop \<^verbatim>\<open>while (!outbound_transfers_.empty())\<close>: pop the front transfer, delete it.
  The recursion runs over the queue; the callbacks never touch the queue
  (lemma \<open>Abort_outbound_transfers\<close>).
\<close>

fun clear_outbound_transfers :: "outbound_transfer list \<Rightarrow> connection \<Rightarrow> connection" where
  "clear_outbound_transfers [] c = c"
| "clear_outbound_transfers (t # ts) c =
     clear_outbound_transfers ts (delete_unfinished t (c\<lparr>outbound_transfers := ts\<rparr>))"

definition Shutdown :: "status \<Rightarrow> connection \<Rightarrow> connection" where
  "Shutdown s c =
     (let c1 = c\<lparr>shutdown_status := s\<rparr>;
          c2 = (if (case inbound c1 of None \<Rightarrow> False | Some t \<Rightarrow> TransferStarted t)
                then LOG WARNING ''Shutting down connection with pending inbound data'' c1
                else c1);
          c3 = c2\<lparr>calls := fail_awaiting s (awaiting_response c2) (calls c2)\<rparr>;
          c4 = c3\<lparr>awaiting_response := []\<rparr>;
          c5 = clear_outbound_transfers (outbound_transfers c4) c4
      in c5\<lparr>read_io_active := False, write_io_active := False,
             is_epoll_registered := False, socket_closed := True\<rparr>)"

text \<open>The reactor thread serving a tear-down request (see \<open>DestroyConnection\<close>).\<close>

definition ServeDestroyRequests :: "connection \<Rightarrow> connection" where
  "ServeDestroyRequests c =
     (case destroy_requests c of
        [] \<Rightarrow> c
      | s # rest \<Rightarrow> Shutdown s (c\<lparr>destroy_requests := []\<rparr>))"

subsection \<open>Client side: outbound calls\<close>

definition QueueOutbound :: "outbound_transfer \<Rightarrow> connection \<Rightarrow> connection" where
  "QueueOutbound t c =
     (if \<not> ok (shutdown_status c) then Abort t (shutdown_status c) c
      else (let c1 = c\<lparr>outbound_transfers := outbound_transfers c @ [t]\<rparr>
            in if negotiation_complete c1 \<and> \<not> write_io_active c1
               then c1\<lparr>write_io_active := True\<rparr> else c1))"

text \<open>\<^verbatim>\<open>new OutboundTransfer(slices, cb, ...)\<close>: the next transfer object.\<close>

definition new_OutboundTransfer :: "string list \<Rightarrow> transfer_callbacks \<Rightarrow> connection \<Rightarrow> outbound_transfer \<times> connection" where
  "new_OutboundTransfer sl cb c =
     (\<lparr>transfer_id = next_transfer_id c, slices = sl, callbacks = cb\<rparr>,
      c\<lparr>next_transfer_id := Suc (next_transfer_id c)\<rparr>)"

definition QueueOutboundCall :: "nat \<Rightarrow> connection \<Rightarrow> connection" where
  "QueueOutboundCall h c =
     (if \<not> ok (shutdown_status c) then update_call h (SetFailed (shutdown_status c)) c
      else (case GetNextCallId c of
              (n, c1) \<Rightarrow>
                (let i = int32_t n;
                     c2 = update_call h (set_call_id i) c1;
                     s = serialize_status (calls c2 h)
                 in if \<not> ok s then update_call h (SetFailed s) c2
                    else (let c3 = update_call h SetQueued c2;
                              entry = \<lparr>car_call = Some h, timeout_timer = timeout (calls c3 h)\<rparr>;
                              c4 = c3\<lparr>awaiting_response := AList.update i entry (awaiting_response c3)\<rparr>
                          in case new_OutboundTransfer (request_slices (calls c4 h))
                                    (CallTransferCallbacks h) c4 of
                               (t, c5) \<Rightarrow> QueueOutbound t c5))))"

text \<open>
  The timer of the pending entry with call id \<open>i\<close> fires. The timer is one-shot and lives
  in the entry, so it fires only for an entry that is in the map with its timer started;
  the \<^verbatim>\<open>DCHECK(car->call)\<close> is the \<open>None\<close> branch.
\<close>

definition HandleOutboundCallTimeout :: "int \<Rightarrow> connection \<Rightarrow> connection" where
  "HandleOutboundCallTimeout i c =
     (case map_of (awaiting_response c) i of
        None \<Rightarrow> c
      | Some entry \<Rightarrow>
          (case car_call entry of
             None \<Rightarrow> c
           | Some h \<Rightarrow>
               (let c1 = update_call h SetTimedOut c
                in c1\<lparr>awaiting_response :=
                       AList.update i (entry\<lparr>car_call := None, timeout_timer := None\<rparr>)
                         (awaiting_response c1)\<rparr>)))"

definition HandleCallResponse :: "inbound_transfer \<Rightarrow> connection \<Rightarrow> connection" where
  "HandleCallResponse transfer c =
     (if \<not> ok (parse_status transfer) then CHECK_failed ''CHECK_OK(resp->ParseFrom)'' c
      else (case EraseKeyReturnValuePtr (parsed_call_id transfer) (awaiting_response c) of
              (None, m) \<Rightarrow>
                LOG WARNING ''Got a response for call id which was not pending! Ignoring.''
                  (c\<lparr>awaiting_response := m\<rparr>)
            | (Some entry, m) \<Rightarrow>
                (let c1 = c\<lparr>awaiting_response := m\<rparr>
                 in case car_call entry of
                      None \<Rightarrow> LOG (VLOG 1) ''Got response to call id after client already timed out'' c1
                    | Some h \<Rightarrow>
                        update_call h
                          (SetResponse (parsed_call_id transfer) (parsed_body transfer)) c1)))"

definition YB_HandleFinishedTransfer :: "connection \<Rightarrow> connection" where
  "YB_HandleFinishedTransfer c =
     (case inbound c of
        None \<Rightarrow> CHECK_failed ''null inbound transfer'' c
      | Some t \<Rightarrow>
          (case direction c of
             CLIENT \<Rightarrow> HandleCallResponse t (c\<lparr>inbound := None\<rparr>)
           | SERVER \<Rightarrow> YB_HandleIncomingCall t (c\<lparr>inbound := None\<rparr>)))"

subsection \<open>The write handler\<close>

text \<open>
  The loop of \<^verbatim>\<open>WriteHandler\<close>. \<open>sends\<close> is what the socket does at the successive
  \<^verbatim>\<open>SendBuffer\<close> calls; when it is used up the socket takes no more bytes, the
  transfer stays unfinished and the handler returns.
\<close>

fun write_loop :: "(status \<times> bool) list \<Rightarrow> outbound_transfer list \<Rightarrow> connection \<Rightarrow> connection" where
  "write_loop sends [] c = c\<lparr>write_io_active := False\<rparr>"
| "write_loop [] (t # ts) c = c"
| "write_loop (r # sends) (t # ts) c =
     (let c1 = SendBuffer t r c
      in if \<not> ok (fst r) then DestroyConnection (fst r) (LOG WARNING ''send error'' c1)
         else if \<not> snd r then c1
         else write_loop sends ts (c1\<lparr>outbound_transfers := ts\<rparr>))"

definition WriteHandler :: "bool \<Rightarrow> (status \<times> bool) list \<Rightarrow> connection \<Rightarrow> connection" where
  "WriteHandler ev_error sends c =
     (if ev_error
      then DestroyConnection (Status NetworkError ''writeHandler encountered an error'' []) c
      else if outbound_transfers c = []
      then (LOG WARNING ''got a ready-to-write callback, but there is nothing to write.'' c)
             \<lparr>write_io_active := False\<rparr>
      else write_loop sends (outbound_transfers c) c)"

subsection \<open>What the callbacks leave alone\<close>

text \<open>
  The fields of a connection that no transfer callback and none of the server-side
  handlers reached from a callback changes.
\<close>

definition frame :: "connection \<Rightarrow> connection \<Rightarrow> bool" where
  "frame c c' =
     (shutdown_status c' = shutdown_status c \<and> awaiting_response c' = awaiting_response c
      \<and> outbound_transfers c' = outbound_transfers c \<and> calls c' = calls c
      \<and> next_call_id c' = next_call_id c \<and> negotiation_complete c' = negotiation_complete c
      \<and> write_io_active c' = write_io_active c \<and> read_io_active c' = read_io_active c
      \<and> is_epoll_registered c' = is_epoll_registered c
      \<and> next_transfer_id c' = next_transfer_id c \<and> callback_edges c' = callback_edges c
      \<and> direction c' = direction c \<and> protocol c' = protocol c
      \<and> socket_closed c' = socket_closed c)"

text \<open>
  \<open>frame_read\<close>: the fields that the read handler and the timeout handler leave alone;
  \<open>frame_write\<close>: those that sending a transfer leaves alone. Sending changes calls only
  by marking them sent (\<open>sent_only\<close>).
\<close>

definition frame_read :: "connection \<Rightarrow> connection \<Rightarrow> bool" where
  "frame_read c c' =
     (shutdown_status c' = shutdown_status c
      \<and> outbound_transfers c' = outbound_transfers c
      \<and> next_call_id c' = next_call_id c \<and> negotiation_complete c' = negotiation_complete c
      \<and> write_io_active c' = write_io_active c
      \<and> next_transfer_id c' = next_transfer_id c \<and> callback_edges c' = callback_edges c)"

definition frame_write :: "connection \<Rightarrow> connection \<Rightarrow> bool" where
  "frame_write c c' = (frame_read c c' \<and> awaiting_response c' = awaiting_response c)"

definition sent_only :: "(nat \<Rightarrow> outbound_call) \<Rightarrow> (nat \<Rightarrow> outbound_call) \<Rightarrow> bool" where
  "sent_only store store' =
     (\<forall>h. \<exists>n. store' h = (store h)\<lparr>history := history (store h) @ replicate n Sent\<rparr>)"

subsection \<open>The read handler, responses to inbound calls\<close>

text \<open>The virtual \<^verbatim>\<open>HandleFinishedTransfer\<close>, by the subclass of the connection.\<close>

definition HandleFinishedTransfer :: "connection \<Rightarrow> connection" where
  "HandleFinishedTransfer c =
     (case protocol c of
        YB \<Rightarrow> YB_HandleFinishedTransfer c
      | Redis \<Rightarrow> Redis_HandleFinishedTransfer c
      | CQL \<Rightarrow> CQL_HandleFinishedTransfer c)"

text \<open>
  \<^verbatim>\<open>ReadHandler\<close>. \<open>recv\<close> is what \<^verbatim>\<open>ReceiveBuffer\<close> did: the status it returned,
  whether its posix code is \<^verbatim>\<open>ESHUTDOWN\<close>, and the inbound transfer (created if there
  was none) as it is after the read.
\<close>

definition ReadHandler :: "bool \<Rightarrow> status \<times> bool \<times> inbound_transfer \<Rightarrow> connection \<Rightarrow> connection" where
  "ReadHandler ev_error recv c =
     (if ev_error
      then DestroyConnection (Status NetworkError ''ReadHandler encountered an error'' []) c
      else (case recv of
              (s, eshutdown, t) \<Rightarrow>
                (let c1 = c\<lparr>inbound := Some t\<rparr>
                 in if \<not> ok s
                    then DestroyConnection s
                           (if eshutdown then LOG (VLOG 1) ''shut down by remote end.'' c1
                            else LOG WARNING ''recv error'' c1)
                    else if \<not> TransferFinished t
                    then LOG (DVLOG 3) ''read is not yet finished yet.'' c1
                    else HandleFinishedTransfer c1)))"

text \<open>
  \<^verbatim>\<open>GetResponseTransferCallback\<close> down-casts the call to the call type of the
  connection's protocol and wraps it.
\<close>

fun GetResponseTransferCallback :: "inbound_call \<Rightarrow> transfer_callbacks" where
  "GetResponseTransferCallback (YBInboundCall i body) = YBResponseTransferCallbacks i"
| "GetResponseTransferCallback (RedisInboundCall body) = RedisResponseTransferCallbacks"
| "GetResponseTransferCallback (CQLInboundCall body) = CQLResponseTransferCallbacks"

text \<open>
  \<^verbatim>\<open>QueueResponseForCall\<close> together with the \<^verbatim>\<open>QueueTransferTask\<close> it schedules, as
  the task runs on the reactor thread. \<open>response\<close> is what \<^verbatim>\<open>SerializeResponseTo\<close>
  produces.
\<close>

definition QueueResponseForCall :: "inbound_call \<Rightarrow> string list \<Rightarrow> connection \<Rightarrow> connection" where
  "QueueResponseForCall call response c =
     (case new_OutboundTransfer response (GetResponseTransferCallback call) c of
        (t, c1) \<Rightarrow> QueueOutbound t c1)"

subsection \<open>The lifetime of a connection\<close>

text \<open>
  What the reactor thread and the callers do with a connection, one event at a time:
  registration, the end of negotiation, a call or a response to send, a timer that fires,
  read and write readiness, and a tear-down decided by the reactor itself. The read and
  the write handler ask for tear-down through \<^verbatim>\<open>DestroyConnection\<close> and return; the
  reactor serves the request right after them.
\<close>

datatype event =
  EvEpollRegister
| EvMarkNegotiationComplete
| EvQueueOutboundCall nat
| EvQueueResponse inbound_call "string list"
| EvTimeout int
| EvReadReady bool "status \<times> bool \<times> inbound_transfer"
| EvWriteReady bool "(status \<times> bool) list"
| EvShutdown status

fun apply_event :: "event \<Rightarrow> connection \<Rightarrow> connection" where
  "apply_event EvEpollRegister c = EpollRegister c"
| "apply_event EvMarkNegotiationComplete c = MarkNegotiationComplete c"
| "apply_event (EvQueueOutboundCall h) c = QueueOutboundCall h c"
| "apply_event (EvQueueResponse call response) c = QueueResponseForCall call response c"
| "apply_event (EvTimeout i) c = HandleOutboundCallTimeout i c"
| "apply_event (EvReadReady ev_error recv) c = ServeDestroyRequests (ReadHandler ev_error recv c)"
| "apply_event (EvWriteReady ev_error sends) c = ServeDestroyRequests (WriteHandler ev_error sends c)"
| "apply_event (EvShutdown s) c = Shutdown s c"

text \<open>
  An event can happen while the process runs; a caller hands a call to
  \<^verbatim>\<open>QueueOutboundCall\<close> once, before anything was done with it
  (\<^verbatim>\<open>DCHECK(!call->call_id_assigned())\<close>).
\<close>

fun enabled :: "event \<Rightarrow> connection \<Rightarrow> bool" where
  "enabled (EvQueueOutboundCall h) c = (process_aborted c = None \<and> fresh_call (calls c h))"
| "enabled e c = (process_aborted c = None)"

fun run :: "event list \<Rightarrow> connection \<Rightarrow> connection option" where
  "run [] c = Some c"
| "run (e # es) c = (if enabled e c then run es (apply_event e c) else None)"

text \<open>
  The call ids handed out along a sequence of events, in order: for each
  \<^verbatim>\<open>QueueOutboundCall\<close> that is not rejected for shutdown, the id the call carries when
  the function returns. \<open>accepted_calls\<close> counts these invocations.
\<close>

fun assigned_call_ids :: "event list \<Rightarrow> connection \<Rightarrow> int list" where
  "assigned_call_ids [] c = []"
| "assigned_call_ids (EvQueueOutboundCall h # es) c =
     (if ok (shutdown_status c)
      then (case call_id (calls (QueueOutboundCall h c) h) of None \<Rightarrow> [] | Some i \<Rightarrow> [i])
      else [])
     @ assigned_call_ids es (apply_event (EvQueueOutboundCall h) c)"
| "assigned_call_ids (e # es) c = assigned_call_ids es (apply_event e c)"

fun accepted_calls :: "event list \<Rightarrow> connection \<Rightarrow> nat" where
  "accepted_calls [] c = 0"
| "accepted_calls (EvQueueOutboundCall h # es) c =
     (if ok (shutdown_status c) then 1 else 0)
     + accepted_calls es (apply_event (EvQueueOutboundCall h) c)"
| "accepted_calls (e # es) c = accepted_calls es (apply_event e c)"

text \<open>
  The write-readiness invariant: a non-empty outbound queue has the write watcher active,
  unless negotiation is still in progress.
\<close>

definition write_interest :: "connection \<Rightarrow> bool" where
  "write_interest c =
     (outbound_transfers c = [] \<or> write_io_active c \<or> \<not> negotiation_complete c)"

text \<open>The callback edges that fired for the transfer with a given id.\<close>

definition edges_of :: "nat \<Rightarrow> connection \<Rightarrow> callback_edge list" where
  "edges_of n c = map snd (filter (\<lambda>p. fst p = n) (callback_edges c))"

definition queued :: "nat \<Rightarrow> connection \<Rightarrow> bool" where
  "queued n c = (n \<in> transfer_id ` set (outbound_transfers c))"

subsection \<open>Example inputs\<close>

definition example_call :: outbound_call where
  "example_call = \<lparr>call_id = None, serialize_status = OK, request_slices = [''R1''],
                    timeout = Some 5, history = []\<rparr>"

definition example_client :: connection where
  "example_client = Connection YB CLIENT (\<lambda>h. example_call)"

definition network_error :: status where
  "network_error = Status NetworkError ''recv error'' []"

definition response_for :: "int \<Rightarrow> inbound_transfer" where
  "response_for i = InboundTransfer True True OK i ''P1'' None"

definition example_server :: connection where
  "example_server = EpollRegister (MarkNegotiationComplete (Connection YB SERVER (\<lambda>h. example_call)))"

definition bad_frame :: inbound_transfer where
  "bad_frame = InboundTransfer True True (Status Corruption ''bad frame'' []) 0 [] None"

definition call_42 :: inbound_transfer where
  "call_42 = InboundTransfer True True OK 42 ''request'' None"

text \<open>Log entries at warning level.\<close>

definition is_warning :: "log_entry \<Rightarrow> bool" where
  "is_warning e = (fst e = WARNING)"

definition example_cql_server :: connection where
  "example_cql_server =
     (EpollRegister (MarkNegotiationComplete (Connection CQL SERVER (\<lambda>h. example_call))))
       \<lparr>inbound := Some bad_frame\<rparr>"

definition redis_second :: inbound_transfer where
  "redis_second = InboundTransfer True True OK 0 ''GET k'' None"

definition redis_first :: inbound_transfer where
  "redis_first = InboundTransfer True True OK 0 ''SET k v'' (Some redis_second)"

definition example_redis_server :: connection where
  "example_redis_server =
     (EpollRegister (MarkNegotiationComplete (Connection Redis SERVER (\<lambda>h. example_call))))
       \<lparr>inbound := Some redis_first\<rparr>"

definition open_client :: connection where
  "open_client = EpollRegister (MarkNegotiationComplete example_client)"

definition stalled_client :: connection where
  "stalled_client =
     apply_event EvMarkNegotiationComplete
       (apply_event (EvQueueOutboundCall 0) (apply_event EvEpollRegister example_client))"

definition example_events :: "event list" where
  "example_events =
     [EvEpollRegister, EvQueueOutboundCall 0, EvMarkNegotiationComplete, EvQueueOutboundCall 1,
      EvTimeout 1, EvQueueOutboundCall 2, EvShutdown network_error, EvQueueOutboundCall 3]"

definition write_events :: "event list" where
  "write_events =
     [EvQueueOutboundCall 0, EvMarkNegotiationComplete, EvEpollRegister, EvQueueOutboundCall 1,
      EvWriteReady False [(OK, True)]]"

definition half_sent_client :: connection where
  "half_sent_client =
     apply_event (EvWriteReady False [(OK, True)])
       (apply_event (EvQueueOutboundCall 1)
         (apply_event EvEpollRegister
           (apply_event EvMarkNegotiationComplete
             (apply_event (EvQueueOutboundCall 0) example_client))))"

definition late_transfer :: outbound_transfer where
  "late_transfer = \<lparr>transfer_id = 2, slices = [''late''], callbacks = CallTransferCallbacks 2\<rparr>"

definition unserializable_call :: outbound_call where
  "unserializable_call =
     \<lparr>call_id = None,
      serialize_status = Status InvalidArgument ''RPC header missing required fields'' [],
      request_slices = [], timeout = None, history = []\<rparr>"

definition picky_client :: connection where
  "picky_client = Connection YB CLIENT (\<lambda>h. unserializable_call)"

definition finished_client :: connection where
  "finished_client =
     apply_event (EvQueueOutboundCall 3)
       (apply_event (EvShutdown network_error)
         (apply_event (EvQueueOutboundCall 2)
           (apply_event (EvTimeout 1)
             (apply_event (EvQueueOutboundCall 1)
               (apply_event EvMarkNegotiationComplete
                 (apply_event (EvQueueOutboundCall 0)
                   (apply_event EvEpollRegister example_client)))))))"

subsection \<open>Invariants of a connection\<close>

text \<open>
  Every transfer allocated so far is either still in the outbound queue, with no callback
  edge fired, or out of it with exactly one; the queued transfers are distinct objects.
\<close>

definition once_each :: "connection \<Rightarrow> bool" where
  "once_each c =
     (distinct (map transfer_id (outbound_transfers c))
      \<and> (\<forall>t \<in> set (outbound_transfers c). transfer_id t < next_transfer_id c)
      \<and> (\<forall>n. length (edges_of n c) = (if n < next_transfer_id c \<and> \<not> queued n c then 1 else 0)))"

text \<open>
  The pending-call map and the calls: the keys of the map are distinct call ids already
  handed out; a call whose handle is in the map carries the key as its call id and has no
  terminal edge yet; no call has more than one terminal edge; a call that anything was
  done with has its terminal edge or is still in the map; and the call of a queued call
  transfer has been through \<^verbatim>\<open>QueueOutboundCall\<close>.
\<close>

definition calls_inv ::
  "(int \<times> car) list \<Rightarrow> (nat \<Rightarrow> outbound_call) \<Rightarrow> outbound_transfer list \<Rightarrow> int \<Rightarrow> bool" where
  "calls_inv m store q nxt =
     (distinct (map fst m)
      \<and> (\<forall>p \<in> set m. fst p < nxt)
      \<and> (\<forall>p \<in> set m. \<forall>h. car_call (snd p) = Some h \<longrightarrow>
            call_id (store h) = Some (fst p) \<and> terminal_edges (store h) = []
            \<and> history (store h) \<noteq> [])
      \<and> (\<forall>h. length (terminal_edges (store h)) \<le> 1)
      \<and> (\<forall>h. history (store h) \<noteq> [] \<longrightarrow>
            length (terminal_edges (store h)) = 1
            \<or> (\<exists>p \<in> set m. car_call (snd p) = Some h))
      \<and> (\<forall>t \<in> set q. \<forall>h. callbacks t = CallTransferCallbacks h \<longrightarrow> history (store h) \<noteq> []))"

definition call_inv :: "connection \<Rightarrow> bool" where
  "call_inv c =
     calls_inv (awaiting_response c) (calls c) (outbound_transfers c) (next_call_id c)"

text \<open>
  \<open>pending h c\<close>: the call \<open>h\<close> is in the pending-call map with a live handle.
  \<open>served c\<close>: the status that \<open>ServeDestroyRequests\<close> passes to \<^verbatim>\<open>Shutdown\<close>, if
  any. \<open>shutdown_arguments e c\<close>: the statuses passed to \<^verbatim>\<open>Shutdown\<close> by the event
  \<open>e\<close> in the state \<open>c\<close>; \<open>shutdown_statuses\<close>: those passed along a sequence of
  events.
  \<open>adds P a b\<close>: the call \<open>b\<close> is the call \<open>a\<close> after more transitions, whose
  failures all carry a status for which \<open>P\<close> holds.
\<close>

definition pending :: "nat \<Rightarrow> connection \<Rightarrow> bool" where
  "pending h c = list_ex (\<lambda>p. car_call (snd p) = Some h) (awaiting_response c)"

definition served :: "connection \<Rightarrow> status list" where
  "served c = (case destroy_requests c of [] \<Rightarrow> [] | s # rest \<Rightarrow> [s])"

fun shutdown_arguments :: "event \<Rightarrow> connection \<Rightarrow> status list" where
  "shutdown_arguments (EvShutdown s) c = [s]"
| "shutdown_arguments (EvReadReady ev_error recv) c = served (ReadHandler ev_error recv c)"
| "shutdown_arguments (EvWriteReady ev_error sends) c = served (WriteHandler ev_error sends c)"
| "shutdown_arguments e c = []"

fun shutdown_statuses :: "event list \<Rightarrow> connection \<Rightarrow> status list" where
  "shutdown_statuses [] c = []"
| "shutdown_statuses (e # es) c = shutdown_arguments e c @ shutdown_statuses es (apply_event e c)"

definition adds :: "(status \<Rightarrow> bool) \<Rightarrow> outbound_call \<Rightarrow> outbound_call \<Rightarrow> bool" where
  "adds P a b =
     (serialize_status b = serialize_status a
      \<and> (\<exists>new. history b = history a @ new \<and> (\<forall>s. Failed s \<in> set new \<longrightarrow> P s)))"

section \<open>Properties\<close>

subsection \<open>Frame lemmas\<close>

lemma frame_refl: "frame c c" by (simp add: frame_def)
lemma frame_trans: "frame a b \<Longrightarrow> frame b c \<Longrightarrow> frame a c" by (simp add: frame_def)

lemma frame_Redis_HandleIncomingCall: "frame c (Redis_HandleIncomingCall t c)"
  by (simp add: frame_def Redis_HandleIncomingCall_def DestroyConnection_def LOG_def
      QueueInboundCall_def Let_def)

lemma frame_Redis_HandleFinishedTransfer: "frame c (Redis_HandleFinishedTransfer c)"
  using frame_Redis_HandleIncomingCall [of "c\<lparr>inbound := None\<rparr>"]
  by (simp add: frame_def Redis_HandleFinishedTransfer_def LOG_def CHECK_failed_def Let_def
      split: option.split)

lemma frame_Redis_FinishedHandlingACall: "frame c (Redis_FinishedHandlingACall c)"
  using frame_Redis_HandleFinishedTransfer [of "c\<lparr>processing_call := False\<rparr>"]
  by (simp add: frame_def Redis_FinishedHandlingACall_def Let_def split: option.split)

lemma frame_CQL_HandleIncomingCall: "frame c (CQL_HandleIncomingCall t c)"
  by (simp add: frame_def CQL_HandleIncomingCall_def LOG_def QueueInboundCall_def Let_def)

lemma frame_CQL_HandleFinishedTransfer: "frame c (CQL_HandleFinishedTransfer c)"
  using frame_CQL_HandleIncomingCall [of "c\<lparr>inbound := None\<rparr>"]
  by (simp add: frame_def CQL_HandleFinishedTransfer_def CHECK_failed_def split: option.split)

lemma frame_CQL_FinishedHandlingACall: "frame c (CQL_FinishedHandlingACall c)"
  using frame_CQL_HandleFinishedTransfer [of c]
  by (simp add: frame_def CQL_FinishedHandlingACall_def split: option.split)

lemma frame_delete_callbacks: "frame c (delete_callbacks cb c)"
  using frame_Redis_FinishedHandlingACall [of c] frame_CQL_FinishedHandlingACall [of c]
  by (cases cb) (simp_all add: frame_def)

lemma frame_LOG: "frame c (LOG l m c)" by (simp add: frame_def LOG_def)

lemma frame_NotifyTransferAborted: "frame c (NotifyTransferAborted cb s c)"
  by (cases cb)
    (simp_all only: NotifyTransferAborted.simps frame_trans [OF frame_LOG frame_delete_callbacks])

lemma Abort_frame:
  "shutdown_status (Abort t s c) = shutdown_status c"
  "awaiting_response (Abort t s c) = awaiting_response c"
  "outbound_transfers (Abort t s c) = outbound_transfers c"
  "calls (Abort t s c) = calls c"
  "next_call_id (Abort t s c) = next_call_id c"
  "negotiation_complete (Abort t s c) = negotiation_complete c"
  "write_io_active (Abort t s c) = write_io_active c"
  "read_io_active (Abort t s c) = read_io_active c"
  "is_epoll_registered (Abort t s c) = is_epoll_registered c"
  "next_transfer_id (Abort t s c) = next_transfer_id c"
  "direction (Abort t s c) = direction c"
  "protocol (Abort t s c) = protocol c"
  "socket_closed (Abort t s c) = socket_closed c"
  "callback_edges (Abort t s c) = callback_edges c @ [(transfer_id t, TransferAbortedEdge s)]"
  using frame_NotifyTransferAborted [of "fire t (TransferAbortedEdge s) c" "callbacks t" s]
  by (simp_all add: Abort_def frame_def fire_def)

lemma clear_frame:
  "shutdown_status (clear_outbound_transfers ts c) = shutdown_status c"
  "awaiting_response (clear_outbound_transfers ts c) = awaiting_response c"
  "calls (clear_outbound_transfers ts c) = calls c"
  "next_call_id (clear_outbound_transfers ts c) = next_call_id c"
  "negotiation_complete (clear_outbound_transfers ts c) = negotiation_complete c"
  "next_transfer_id (clear_outbound_transfers ts c) = next_transfer_id c"
  "direction (clear_outbound_transfers ts c) = direction c"
  "protocol (clear_outbound_transfers ts c) = protocol c"
  by (induction ts arbitrary: c; simp add: delete_unfinished_def Abort_frame)+

lemma clear_outbound_transfers_empty:
  "outbound_transfers c = ts \<Longrightarrow> outbound_transfers (clear_outbound_transfers ts c) = []"
  by (induction ts arbitrary: c) (simp_all add: delete_unfinished_def Abort_frame)

lemma clear_callback_edges:
  "callback_edges (clear_outbound_transfers ts c) =
     callback_edges c @ map (\<lambda>t. (transfer_id t, TransferAbortedEdge (shutdown_status c))) ts"
  by (induction ts arbitrary: c) (simp_all add: delete_unfinished_def Abort_frame clear_frame)

lemma Shutdown_fields:
  "shutdown_status (Shutdown s c) = s"
  "awaiting_response (Shutdown s c) = []"
  "outbound_transfers (Shutdown s c) = []"
  "is_epoll_registered (Shutdown s c) = False"
  "read_io_active (Shutdown s c) = False"
  "write_io_active (Shutdown s c) = False"
  "socket_closed (Shutdown s c) = True"
  "next_call_id (Shutdown s c) = next_call_id c"
  "negotiation_complete (Shutdown s c) = negotiation_complete c"
  "next_transfer_id (Shutdown s c) = next_transfer_id c"
  "direction (Shutdown s c) = direction c"
  "calls (Shutdown s c) = fail_awaiting s (awaiting_response c) (calls c)"
  "callback_edges (Shutdown s c) =
     callback_edges c @ map (\<lambda>t. (transfer_id t, TransferAbortedEdge s)) (outbound_transfers c)"
  by (simp_all add: Shutdown_def Let_def clear_frame clear_outbound_transfers_empty
      clear_callback_edges LOG_def)

subsection \<open>Association lists, evaluation\<close>

lemma delete_absent: "map_of m k = None \<Longrightarrow> AList.delete k m = m"
  by (simp add: map_of_eq_None_iff)

lemma delete_not_member: "(k, v) \<notin> set (AList.delete k m)"
  by (simp add: AList.delete_eq)

lemmas run_defs =
  QueueOutboundCall_def example_client_def example_call_def Connection_def GetNextCallId_def
  update_call_def set_call_id_def SetQueued_def SetSent_def SetTimedOut_def SetFailed_def
  SetResponse_def new_OutboundTransfer_def QueueOutbound_def Let_def
  HandleOutboundCallTimeout_def HandleCallResponse_def EraseKeyReturnValuePtr_def LOG_def
  response_for_def IsFinished_def int32_t_def

lemmas event_defs =
  run_defs EpollRegister_def MarkNegotiationComplete_def fresh_call_def Shutdown_fields
  network_error_def

lemmas write_defs =
  event_defs WriteHandler_def SendBuffer_def fire_def ServeDestroyRequests_def
  edges_of_def queued_def

subsection \<open>What the handlers leave alone\<close>

lemma frame_imp_frame_read: "frame c c' \<Longrightarrow> frame_read c c'"
  by (simp add: frame_def frame_read_def)

lemma frame_read_trans: "frame_read a b \<Longrightarrow> frame_read b c \<Longrightarrow> frame_read a c"
  by (simp add: frame_read_def)

lemma frame_read_HandleCallResponse: "frame_read c (HandleCallResponse t c)"
  by (simp add: frame_read_def HandleCallResponse_def CHECK_failed_def EraseKeyReturnValuePtr_def
      LOG_def update_call_def Let_def split: option.split)

lemma frame_read_YB_HandleIncomingCall: "frame_read c (YB_HandleIncomingCall t c)"
  by (simp add: frame_read_def YB_HandleIncomingCall_def InsertIfNotPresent_def
      DestroyConnection_def LOG_def QueueInboundCall_def Let_def split: option.split)

lemma frame_read_YB_HandleFinishedTransfer: "frame_read c (YB_HandleFinishedTransfer c)"
  using frame_read_HandleCallResponse [of "c\<lparr>inbound := None\<rparr>"]
    frame_read_YB_HandleIncomingCall [of "c\<lparr>inbound := None\<rparr>"]
  by (simp add: frame_read_def YB_HandleFinishedTransfer_def CHECK_failed_def
      split: option.split direction.split)

lemma frame_read_HandleFinishedTransfer: "frame_read c (HandleFinishedTransfer c)"
  using frame_read_YB_HandleFinishedTransfer [of c]
    frame_imp_frame_read [OF frame_Redis_HandleFinishedTransfer, of c]
    frame_imp_frame_read [OF frame_CQL_HandleFinishedTransfer, of c]
  by (simp add: HandleFinishedTransfer_def split: protocol.split)

lemma frame_read_ReadHandler: "frame_read c (ReadHandler ev_error recv c)"
proof -
  obtain s e t where r: "recv = (s, e, t)" by (cases recv)
  show ?thesis
    using frame_read_HandleFinishedTransfer [of "c\<lparr>inbound := Some t\<rparr>"]
    by (simp add: r frame_read_def ReadHandler_def DestroyConnection_def LOG_def Let_def)
qed

lemma frame_read_HandleOutboundCallTimeout: "frame_read c (HandleOutboundCallTimeout i c)"
  by (simp add: frame_read_def HandleOutboundCallTimeout_def update_call_def Let_def
      split: option.split)

lemma sent_only_refl: "sent_only st st"
  unfolding sent_only_def by (intro allI exI [of _ 0]) simp

lemma sent_only_trans:
  assumes "sent_only a b" and "sent_only b c"
  shows "sent_only a c"
  unfolding sent_only_def
proof
  fix h
  from assms obtain n m where "b h = (a h)\<lparr>history := history (a h) @ replicate n Sent\<rparr>"
    and "c h = (b h)\<lparr>history := history (b h) @ replicate m Sent\<rparr>"
    unfolding sent_only_def by blast
  then have "c h = (a h)\<lparr>history := history (a h) @ replicate (n + m) Sent\<rparr>"
    by (simp add: replicate_add)
  then show "\<exists>k. c h = (a h)\<lparr>history := history (a h) @ replicate k Sent\<rparr>" ..
qed

lemma sent_only_SetSent: "sent_only st (st(h := SetSent (st h)))"
  unfolding sent_only_def
proof
  fix k
  show "\<exists>n. (st(h := SetSent (st h))) k = (st k)\<lparr>history := history (st k) @ replicate n Sent\<rparr>"
  proof (cases "k = h")
    case True
    then show ?thesis by (intro exI [of _ 1]) (simp add: SetSent_def)
  next
    case False
    then show ?thesis by (intro exI [of _ 0]) simp
  qed
qed

lemma frame_write_trans: "frame_write a b \<Longrightarrow> frame_write b c \<Longrightarrow> frame_write a c"
  by (simp add: frame_write_def frame_read_def)

lemma frame_imp_frame_write: "frame c c' \<Longrightarrow> frame_write c c'"
  by (simp add: frame_def frame_write_def frame_read_def)

lemma NotifyTransferFinished_frame: "frame_write c (NotifyTransferFinished cb c)"
proof (cases cb)
  case (CallTransferCallbacks h)
  then show ?thesis by (simp add: frame_write_def frame_read_def update_call_def)
next
  case (YBResponseTransferCallbacks i)
  then show ?thesis
    using frame_imp_frame_write [OF frame_delete_callbacks, of c cb] by simp
next
  case RedisResponseTransferCallbacks
  then show ?thesis
    using frame_imp_frame_write [OF frame_delete_callbacks, of c cb] by simp
next
  case CQLResponseTransferCallbacks
  then show ?thesis
    using frame_imp_frame_write [OF frame_delete_callbacks, of c cb] by simp
qed

lemma NotifyTransferFinished_calls: "sent_only (calls c) (calls (NotifyTransferFinished cb c))"
proof (cases cb)
  case (CallTransferCallbacks h)
  then show ?thesis by (simp add: update_call_def sent_only_refl sent_only_SetSent)
next
  case (YBResponseTransferCallbacks i)
  then show ?thesis
    using frame_delete_callbacks [of c cb] by (simp add: frame_def sent_only_refl)
next
  case RedisResponseTransferCallbacks
  then show ?thesis
    using frame_delete_callbacks [of c cb] by (simp add: frame_def sent_only_refl)
next
  case CQLResponseTransferCallbacks
  then show ?thesis
    using frame_delete_callbacks [of c cb] by (simp add: frame_def sent_only_refl)
qed

lemma SendBuffer_fields:
  "shutdown_status (SendBuffer t r c) = shutdown_status c"
  "awaiting_response (SendBuffer t r c) = awaiting_response c"
  "outbound_transfers (SendBuffer t r c) = outbound_transfers c"
  "next_call_id (SendBuffer t r c) = next_call_id c"
  "negotiation_complete (SendBuffer t r c) = negotiation_complete c"
  "write_io_active (SendBuffer t r c) = write_io_active c"
  "next_transfer_id (SendBuffer t r c) = next_transfer_id c"
  "callback_edges (SendBuffer t r c) =
     callback_edges c @ (if ok (fst r) \<and> snd r then [(transfer_id t, TransferFinishedEdge)] else [])"
  using NotifyTransferFinished_frame [of "fire t TransferFinishedEdge c" "callbacks t"]
  by (simp_all add: SendBuffer_def frame_write_def frame_read_def fire_def)

lemma SendBuffer_calls: "sent_only (calls c) (calls (SendBuffer t r c))"
  using NotifyTransferFinished_calls [of "fire t TransferFinishedEdge c" "callbacks t"]
  by (simp add: SendBuffer_def fire_def sent_only_refl)

lemma write_loop_fields:
  "shutdown_status (write_loop sends ts c) = shutdown_status c"
  "awaiting_response (write_loop sends ts c) = awaiting_response c"
  "next_call_id (write_loop sends ts c) = next_call_id c"
  "negotiation_complete (write_loop sends ts c) = negotiation_complete c"
  "next_transfer_id (write_loop sends ts c) = next_transfer_id c"
  by (induction sends ts c rule: write_loop.induct;
      simp add: SendBuffer_fields Let_def DestroyConnection_def LOG_def)+

lemma write_loop_calls: "sent_only (calls c) (calls (write_loop sends ts c))"
proof (induction sends ts c rule: write_loop.induct)
  case (1 sends c)
  show ?case by (simp add: sent_only_refl)
next
  case (2 t ts c)
  show ?case by (simp add: sent_only_refl)
next
  case (3 r sends t ts c)
  show ?case
  proof (cases "ok (fst r) \<and> snd r")
    case True
    with 3 have "sent_only (calls ((SendBuffer t r c)\<lparr>outbound_transfers := ts\<rparr>))
        (calls (write_loop sends ts ((SendBuffer t r c)\<lparr>outbound_transfers := ts\<rparr>)))"
      by simp
    with SendBuffer_calls [of c t r] True show ?thesis
      by (auto simp: Let_def intro: sent_only_trans)
  next
    case False
    with SendBuffer_calls [of c t r] show ?thesis
      by (auto simp: Let_def DestroyConnection_def LOG_def)
  qed
qed

subsection \<open>Call ids\<close>

lemma QueueOutbound_fields:
  "shutdown_status (QueueOutbound t c) = shutdown_status c"
  "awaiting_response (QueueOutbound t c) = awaiting_response c"
  "calls (QueueOutbound t c) = calls c"
  "next_call_id (QueueOutbound t c) = next_call_id c"
  "negotiation_complete (QueueOutbound t c) = negotiation_complete c"
  "next_transfer_id (QueueOutbound t c) = next_transfer_id c"
  by (simp_all add: QueueOutbound_def Abort_frame Let_def)

lemma QueueOutboundCall_next_call_id:
  "next_call_id (QueueOutboundCall h c) = next_call_id c + (if ok (shutdown_status c) then 1 else 0)"
  by (simp add: QueueOutboundCall_def GetNextCallId_def update_call_def new_OutboundTransfer_def
      QueueOutbound_fields Let_def)

lemma QueueOutboundCall_call_id:
  "ok (shutdown_status c) \<Longrightarrow>
   call_id (calls (QueueOutboundCall h c) h) = Some (int32_t (next_call_id c))"
  by (simp add: QueueOutboundCall_def GetNextCallId_def update_call_def new_OutboundTransfer_def
      QueueOutbound_fields Let_def set_call_id_def SetFailed_def SetQueued_def)

lemma ServeDestroyRequests_next_call_id:
  "next_call_id (ServeDestroyRequests c) = next_call_id c"
  by (simp add: ServeDestroyRequests_def Shutdown_fields split: list.split)

lemma WriteHandler_next_call_id:
  "next_call_id (WriteHandler ev_error sends c) = next_call_id c"
  by (simp add: WriteHandler_def DestroyConnection_def LOG_def write_loop_fields)

lemma QueueResponseForCall_next_call_id:
  "next_call_id (QueueResponseForCall call response c) = next_call_id c"
  by (simp add: QueueResponseForCall_def new_OutboundTransfer_def QueueOutbound_fields)

lemma apply_event_next_call_id:
  "next_call_id (apply_event e c) =
     next_call_id c + (case e of EvQueueOutboundCall h \<Rightarrow> if ok (shutdown_status c) then 1 else 0
                       | _ \<Rightarrow> 0)"
proof (cases e)
  case (EvReadReady ev_error recv)
  with frame_read_ReadHandler [of c ev_error recv] show ?thesis
    by (simp add: ServeDestroyRequests_next_call_id frame_read_def)
next
  case (EvTimeout i)
  with frame_read_HandleOutboundCallTimeout [of c i] show ?thesis
    by (simp add: frame_read_def)
qed (simp_all add: EpollRegister_def MarkNegotiationComplete_def Let_def
      QueueOutboundCall_next_call_id QueueResponseForCall_next_call_id
      ServeDestroyRequests_next_call_id WriteHandler_next_call_id Shutdown_fields)

lemma assigned_call_ids_from:
  "assigned_call_ids evs c =
     map (\<lambda>k. int32_t (next_call_id c + int k)) [0..<accepted_calls evs c]"
proof (induction evs arbitrary: c)
  case Nil
  show ?case by simp
next
  case (Cons e evs)
  show ?case
  proof (cases e)
    case (EvQueueOutboundCall h)
    show ?thesis
    proof (cases "ok (shutdown_status c)")
      case True
      have "map (\<lambda>k. int32_t (next_call_id c + int k))
              [0..<Suc (accepted_calls evs (QueueOutboundCall h c))]
            = int32_t (next_call_id c)
              # map (\<lambda>k. int32_t (next_call_id c + 1 + int k))
                  [0..<accepted_calls evs (QueueOutboundCall h c)]"
        by (simp add: upt_conv_Cons map_Suc_upt [symmetric] add.assoc del: upt_Suc)
      with True EvQueueOutboundCall show ?thesis
        by (simp add: Cons.IH QueueOutboundCall_call_id QueueOutboundCall_next_call_id del: upt_Suc)
    next
      case False
      with EvQueueOutboundCall show ?thesis
        by (simp add: Cons.IH QueueOutboundCall_next_call_id)
    qed
  qed (simp_all add: Cons.IH apply_event_next_call_id del: apply_event.simps)
qed

lemma int32_t_id: "- 2147483648 \<le> x \<Longrightarrow> x < 2147483648 \<Longrightarrow> int32_t x = x"
  by (simp add: int32_t_def)

lemma int32_t_range: "int32_t x < 2147483648"
  unfolding int32_t_def using pos_mod_bound [of 4294967296 "x + 2147483648"] by simp

lemma shutdown_status_QueueOutboundCall:
  "shutdown_status (QueueOutboundCall h c) = shutdown_status c"
  by (simp add: QueueOutboundCall_def GetNextCallId_def update_call_def new_OutboundTransfer_def
      QueueOutbound_fields Let_def)

lemma accepted_calls_all:
  "ok (shutdown_status c) \<Longrightarrow> accepted_calls (map EvQueueOutboundCall hs) c = length hs"
  by (induction hs arbitrary: c) (simp_all add: shutdown_status_QueueOutboundCall)

subsection \<open>Shutdown\<close>

lemma fail_awaiting_history:
  "history (fail_awaiting s m store h) =
     history (store h) @
       replicate (length (filter (\<lambda>p. car_call (snd p) = Some h) m)) (Failed s)"
proof (induction m arbitrary: store)
  case Nil
  show ?case by simp
next
  case (Cons p m)
  obtain i e where p: "p = (i, e)" by (cases p)
  show ?case
  proof (cases "car_call e")
    case None
    with p show ?thesis by (simp add: Cons.IH)
  next
    case (Some h')
    with p show ?thesis
      by (simp add: Cons.IH SetFailed_def replicate_app_Cons_same)
  qed
qed

text \<open>
  C2. After \<^verbatim>\<open>Shutdown(s)\<close> the pending-call map and the outbound transfer queue are
  empty, the epoll-registered flag is false, and every call that was in the pending map
  with a live call handle has been failed with status \<open>s\<close>: \<open>Failed s\<close> is the last
  transition of its history.
\<close>

theorem Shutdown_completeness:
  "awaiting_response (Shutdown s c) = [] \<and> outbound_transfers (Shutdown s c) = []
   \<and> \<not> is_epoll_registered (Shutdown s c)
   \<and> (\<forall>(i, entry) \<in> set (awaiting_response c). \<forall>h. car_call entry = Some h \<longrightarrow>
        Failed s \<in> set (history (calls (Shutdown s c) h))
        \<and> last (history (calls (Shutdown s c) h)) = Failed s)"
proof -
  have "Failed s \<in> set (history (calls (Shutdown s c) h))
        \<and> last (history (calls (Shutdown s c) h)) = Failed s"
    if "(i, entry) \<in> set (awaiting_response c)" "car_call entry = Some h" for i entry h
  proof -
    from that have "filter (\<lambda>p. car_call (snd p) = Some h) (awaiting_response c) \<noteq> []"
      by (force simp: filter_empty_conv)
    then obtain n where
      "length (filter (\<lambda>p. car_call (snd p) = Some h) (awaiting_response c)) = Suc n"
      by (cases "filter (\<lambda>p. car_call (snd p) = Some h) (awaiting_response c)") auto
    then have "history (calls (Shutdown s c) h)
        = history (calls c h) @ replicate (Suc n) (Failed s)"
      by (simp only: Shutdown_fields fail_awaiting_history)
    then show ?thesis by simp
  qed
  then show ?thesis by (auto simp: Shutdown_fields)
qed

theorem Shutdown_completeness_witness:
  "(1, \<lparr>car_call = Some 0, timeout_timer = Some 5\<rparr>)
     \<in> set (awaiting_response (QueueOutboundCall 0 example_client))
   \<and> history (calls (Shutdown network_error (QueueOutboundCall 0 example_client)) 0)
       = [Queued, Failed network_error]
   \<and> Failed network_error
       \<in> set (history (calls (Shutdown network_error (QueueOutboundCall 0 example_client)) 0))"
  using Shutdown_completeness [of network_error "QueueOutboundCall 0 example_client"]
  by (simp add: QueueOutboundCall_def example_client_def example_call_def Connection_def
      GetNextCallId_def update_call_def set_call_id_def SetQueued_def new_OutboundTransfer_def
      QueueOutbound_def Let_def Shutdown_fields SetFailed_def int32_t_def)

subsection \<open>Responses on a client connection\<close>

text \<open>
  C10. A successfully parsed response whose call id has no entry in the pending-call map
  is ignored: \<^verbatim>\<open>HandleCallResponse\<close> changes nothing but the log, to which it adds one
  line at warning level. No call changes, the map is as before, no tear-down is requested
  and the shutdown status is untouched.
\<close>

theorem HandleCallResponse_not_pending:
  assumes "ok (parse_status t)"
    and "map_of (awaiting_response c) (parsed_call_id t) = None"
  shows "HandleCallResponse t c =
           c\<lparr>log_entries := log_entries c @
               [(WARNING, ''Got a response for call id which was not pending! Ignoring.'')]\<rparr>
         \<and> calls (HandleCallResponse t c) = calls c
         \<and> awaiting_response (HandleCallResponse t c) = awaiting_response c
         \<and> destroy_requests (HandleCallResponse t c) = destroy_requests c
         \<and> shutdown_status (HandleCallResponse t c) = shutdown_status c"
  using assms
  by (simp add: HandleCallResponse_def EraseKeyReturnValuePtr_def delete_absent LOG_def)

theorem HandleCallResponse_not_pending_witness:
  "ok (parse_status (response_for 7))
   \<and> map_of (awaiting_response example_client) (parsed_call_id (response_for 7)) = None
   \<and> log_entries (HandleCallResponse (response_for 7) example_client) =
       [(WARNING, ''Got a response for call id which was not pending! Ignoring.'')]
   \<and> destroy_requests (HandleCallResponse (response_for 7) example_client) = []"
  using HandleCallResponse_not_pending [of "response_for 7" example_client]
  by (simp add: response_for_def example_client_def Connection_def)

text \<open>
  C4. When the timer of a pending entry with a live call handle fires,
  \<^verbatim>\<open>HandleOutboundCallTimeout\<close> marks the call timed out and clears the handle of the
  entry, which stays in the map. A parsed response that arrives for that call id in any
  later state where the entry is still such a tombstone removes the entry, changes no call,
  requests no tear-down and adds no log line at warning level.
\<close>

theorem timeout_leaves_tombstone:
  assumes "map_of (awaiting_response c) i = Some entry"
    and "car_call entry = Some h"
    and "ok (parse_status t)"
    and "parsed_call_id t = i"
  shows "history (calls (HandleOutboundCallTimeout i c) h) = history (calls c h) @ [TimedOut]
    \<and> map_of (awaiting_response (HandleOutboundCallTimeout i c)) i
         = Some (entry\<lparr>car_call := None, timeout_timer := None\<rparr>)
    \<and> (\<forall>c' e. map_of (awaiting_response c') i = Some e \<and> car_call e = None \<longrightarrow>
          map_of (awaiting_response (HandleCallResponse t c')) i = None
          \<and> i \<notin> fst ` set (awaiting_response (HandleCallResponse t c'))
          \<and> calls (HandleCallResponse t c') = calls c'
          \<and> filter is_warning (log_entries (HandleCallResponse t c'))
               = filter is_warning (log_entries c')
          \<and> destroy_requests (HandleCallResponse t c') = destroy_requests c')"
  using assms
  by (auto simp: HandleOutboundCallTimeout_def HandleCallResponse_def update_call_def
      SetTimedOut_def Let_def update_conv' EraseKeyReturnValuePtr_def delete_conv' LOG_def
      is_warning_def delete_not_member)


theorem timeout_leaves_tombstone_witness:
  "history (calls (HandleOutboundCallTimeout 1 (QueueOutboundCall 0 example_client)) 0)
     = [Queued, TimedOut]
   \<and> awaiting_response (HandleOutboundCallTimeout 1 (QueueOutboundCall 0 example_client))
       = [(1, \<lparr>car_call = None, timeout_timer = None\<rparr>)]
   \<and> awaiting_response (HandleCallResponse (response_for 1)
        (HandleOutboundCallTimeout 1 (QueueOutboundCall 0 example_client))) = []
   \<and> filter is_warning (log_entries (HandleCallResponse (response_for 1)
        (HandleOutboundCallTimeout 1 (QueueOutboundCall 0 example_client)))) = []"
proof -
  let ?c = "QueueOutboundCall 0 example_client"
  let ?entry = "\<lparr>car_call = Some 0, timeout_timer = Some (5::nat)\<rparr>"
  have a: "map_of (awaiting_response ?c) 1 = Some ?entry"
    by (simp add: run_defs)
  have b: "car_call ?entry = Some 0" by simp
  have c: "ok (parse_status (response_for 1))" by (simp add: response_for_def)
  have d: "parsed_call_id (response_for 1) = 1" by (simp add: response_for_def)
  note T = timeout_leaves_tombstone [OF a b c d]
  have e: "map_of (awaiting_response (HandleOutboundCallTimeout 1 ?c)) 1
             = Some \<lparr>car_call = None, timeout_timer = None\<rparr>
           \<and> car_call \<lparr>car_call = None, timeout_timer = (None::nat option)\<rparr> = None"
    using T by simp
  from T have "filter is_warning (log_entries (HandleCallResponse (response_for 1)
        (HandleOutboundCallTimeout 1 ?c))) = filter is_warning (log_entries (HandleOutboundCallTimeout 1 ?c))"
    using e by blast
  then show ?thesis
    by (simp add: run_defs is_warning_def)
qed

subsection \<open>Incoming calls on a server connection\<close>

text \<open>
  C5. On a YB server connection with no tear-down pending, an incoming call that parses:
  if its call id is already in \<^verbatim>\<open>calls_being_handled_\<close>, the call is not dispatched,
  the map is unchanged and the connection is torn down with the status
  RuntimeError "Received duplicate call id"; if the call id is new, the call is inserted
  into the map and dispatched, and no tear-down is requested.
\<close>

theorem YB_HandleIncomingCall_duplicate:
  assumes "ok (parse_status t)" and "destroy_requests c = []"
  shows "(map_of (calls_being_handled c) (parsed_call_id t) \<noteq> None \<longrightarrow>
            messenger_queue (YB_HandleIncomingCall t c) = messenger_queue c
            \<and> calls_being_handled (YB_HandleIncomingCall t c) = calls_being_handled c
            \<and> destroy_requests (YB_HandleIncomingCall t c)
                 = [Status RuntimeError ''Received duplicate call id''
                      (Substitute0 (parsed_call_id t))]
            \<and> shutdown_status (ServeDestroyRequests (YB_HandleIncomingCall t c))
                 = Status RuntimeError ''Received duplicate call id''
                      (Substitute0 (parsed_call_id t))
            \<and> socket_closed (ServeDestroyRequests (YB_HandleIncomingCall t c))
            \<and> \<not> read_io_active (ServeDestroyRequests (YB_HandleIncomingCall t c)))
       \<and> (map_of (calls_being_handled c) (parsed_call_id t) = None \<longrightarrow>
            calls_being_handled (YB_HandleIncomingCall t c)
              = calls_being_handled c
                  @ [(parsed_call_id t, YBInboundCall (parsed_call_id t) (parsed_body t))]
            \<and> messenger_queue (YB_HandleIncomingCall t c)
                = messenger_queue c @ [YBInboundCall (parsed_call_id t) (parsed_body t)]
            \<and> destroy_requests (YB_HandleIncomingCall t c) = []
            \<and> ServeDestroyRequests (YB_HandleIncomingCall t c) = YB_HandleIncomingCall t c)"
  using assms
  by (auto simp: YB_HandleIncomingCall_def InsertIfNotPresent_def DestroyConnection_def
      LOG_def QueueInboundCall_def ServeDestroyRequests_def Shutdown_fields Let_def)

theorem YB_HandleIncomingCall_duplicate_witness:
  "messenger_queue (YB_HandleIncomingCall call_42 example_server) = [YBInboundCall 42 ''request'']
   \<and> map_of (calls_being_handled (YB_HandleIncomingCall call_42 example_server)) 42
       = Some (YBInboundCall 42 ''request'')
   \<and> messenger_queue (YB_HandleIncomingCall call_42 (YB_HandleIncomingCall call_42 example_server))
       = [YBInboundCall 42 ''request'']
   \<and> shutdown_status (ServeDestroyRequests
        (YB_HandleIncomingCall call_42 (YB_HandleIncomingCall call_42 example_server)))
       = Status RuntimeError ''Received duplicate call id'' ''42''"
proof -
  have s: "Substitute0 42 = ''42''" by code_simp
  have a: "ok (parse_status call_42)" by (simp add: call_42_def)
  have b: "destroy_requests example_server = []"
    by (simp add: example_server_def EpollRegister_def MarkNegotiationComplete_def Connection_def)
  have c: "map_of (calls_being_handled example_server) (parsed_call_id call_42) = None"
    by (simp add: example_server_def EpollRegister_def MarkNegotiationComplete_def Connection_def)
  note first = YB_HandleIncomingCall_duplicate [OF a b]
  from first c have d: "destroy_requests (YB_HandleIncomingCall call_42 example_server) = []"
    and q: "messenger_queue (YB_HandleIncomingCall call_42 example_server)
              = messenger_queue example_server @ [YBInboundCall 42 ''request'']"
    and m: "calls_being_handled (YB_HandleIncomingCall call_42 example_server)
              = calls_being_handled example_server @ [(42, YBInboundCall 42 ''request'')]"
    by (simp_all add: call_42_def)
  note second = YB_HandleIncomingCall_duplicate [OF a d]
  have e: "map_of (calls_being_handled (YB_HandleIncomingCall call_42 example_server))
             (parsed_call_id call_42) \<noteq> None"
    unfolding m
    by (simp add: call_42_def example_server_def EpollRegister_def
        MarkNegotiationComplete_def Connection_def)
  have f: "map_of (calls_being_handled (YB_HandleIncomingCall call_42 example_server)) 42
             = Some (YBInboundCall 42 ''request'')"
    unfolding m
    by (simp add: example_server_def EpollRegister_def MarkNegotiationComplete_def
        Connection_def)
  have g: "messenger_queue (YB_HandleIncomingCall call_42 example_server)
             = [YBInboundCall 42 ''request'']"
    unfolding q
    by (simp add: example_server_def EpollRegister_def MarkNegotiationComplete_def
        Connection_def)
  from second e have
    "messenger_queue (YB_HandleIncomingCall call_42 (YB_HandleIncomingCall call_42 example_server))
       = messenger_queue (YB_HandleIncomingCall call_42 example_server)"
    and "shutdown_status (ServeDestroyRequests
          (YB_HandleIncomingCall call_42 (YB_HandleIncomingCall call_42 example_server)))
       = Status RuntimeError ''Received duplicate call id'' (Substitute0 (parsed_call_id call_42))"
    by blast+
  with f g s show ?thesis
    by (simp add: call_42_def)
qed

text \<open>
  What each protocol does with a frame that fails to parse: YB and Redis request the
  tear-down with the parse status, CQL logs a warning and returns.
\<close>

lemma YB_parse_failure_tears_down:
  "\<not> ok (parse_status t) \<Longrightarrow> destroy_requests c = [] \<Longrightarrow>
   shutdown_status (ServeDestroyRequests (YB_HandleIncomingCall t c)) = parse_status t
   \<and> messenger_queue (YB_HandleIncomingCall t c) = messenger_queue c"
  by (simp add: YB_HandleIncomingCall_def DestroyConnection_def LOG_def
      ServeDestroyRequests_def Shutdown_fields)

lemma Redis_parse_failure_tears_down:
  "\<not> ok (parse_status t) \<Longrightarrow> destroy_requests c = [] \<Longrightarrow>
   shutdown_status (ServeDestroyRequests (Redis_HandleIncomingCall t c)) = parse_status t
   \<and> messenger_queue (Redis_HandleIncomingCall t c) = messenger_queue c"
  by (simp add: Redis_HandleIncomingCall_def DestroyConnection_def LOG_def
      ServeDestroyRequests_def Shutdown_fields)

lemma CQL_parse_failure_only_logs:
  "\<not> ok (parse_status t) \<Longrightarrow>
   CQL_HandleIncomingCall t c = LOG WARNING ''received bad data'' c"
  by (simp add: CQL_HandleIncomingCall_def)

text \<open>
  C6. A frame that fails to parse is meant to tear the connection down with the parse
  status, for every protocol. On a CQL server connection it does not: after
  \<^verbatim>\<open>HandleFinishedTransfer\<close> on a frame whose parse fails, no tear-down is requested,
  the shutdown status is still OK, the read watcher is active, the connection is still
  registered and the socket is open.
\<close>

theorem CQL_parse_failure_stays_open:
  "\<not> ok (parse_status bad_frame)
   \<and> destroy_requests (CQL_HandleFinishedTransfer example_cql_server) = []
   \<and> shutdown_status (ServeDestroyRequests (CQL_HandleFinishedTransfer example_cql_server)) = OK
   \<and> read_io_active (ServeDestroyRequests (CQL_HandleFinishedTransfer example_cql_server))
   \<and> is_epoll_registered (ServeDestroyRequests (CQL_HandleFinishedTransfer example_cql_server))
   \<and> \<not> socket_closed (ServeDestroyRequests (CQL_HandleFinishedTransfer example_cql_server))"
  by (simp add: example_cql_server_def bad_frame_def CQL_HandleFinishedTransfer_def
      CQL_HandleIncomingCall_def LOG_def ServeDestroyRequests_def EpollRegister_def
      MarkNegotiationComplete_def Connection_def)

text \<open>
  C9. On a Redis server connection: while \<^verbatim>\<open>processing_call_\<close> is set,
  \<^verbatim>\<open>HandleFinishedTransfer\<close> leaves the inbound transfer parked and dispatches
  nothing; otherwise a transfer that parses sets \<^verbatim>\<open>processing_call_\<close>, hands the call
  to the messenger, and its excess data becomes the next inbound transfer.
  \<^verbatim>\<open>FinishedHandlingACall\<close> clears \<^verbatim>\<open>processing_call_\<close> and, when a finished
  transfer is parked, re-drives \<^verbatim>\<open>HandleFinishedTransfer\<close> on it, which dispatches
  the parked call; with nothing finished parked it only clears the flag.
\<close>

theorem Redis_single_in_flight:
  "(processing_call c \<longrightarrow>
      inbound (Redis_HandleFinishedTransfer c) = inbound c
      \<and> messenger_queue (Redis_HandleFinishedTransfer c) = messenger_queue c
      \<and> processing_call (Redis_HandleFinishedTransfer c)
      \<and> destroy_requests (Redis_HandleFinishedTransfer c) = destroy_requests c)
   \<and> (\<not> processing_call c \<and> inbound c = Some t \<and> ok (parse_status t) \<longrightarrow>
      processing_call (Redis_HandleFinishedTransfer c)
      \<and> messenger_queue (Redis_HandleFinishedTransfer c)
           = messenger_queue c @ [RedisInboundCall (parsed_body t)]
      \<and> inbound (Redis_HandleFinishedTransfer c) = ExcessData t)
   \<and> (\<not> processing_call c \<and> inbound c = Some t \<longrightarrow>
        inbound (Redis_HandleFinishedTransfer c) = ExcessData t)
   \<and> (inbound c = Some t \<and> TransferFinished t \<longrightarrow>
        Redis_FinishedHandlingACall c
          = Redis_HandleFinishedTransfer (c\<lparr>processing_call := False\<rparr>))
   \<and> (inbound c = Some t \<and> TransferFinished t \<and> ok (parse_status t) \<longrightarrow>
        processing_call (Redis_FinishedHandlingACall c)
        \<and> messenger_queue (Redis_FinishedHandlingACall c)
             = messenger_queue c @ [RedisInboundCall (parsed_body t)]
        \<and> inbound (Redis_FinishedHandlingACall c) = ExcessData t)
   \<and> ((inbound c = None \<or> (inbound c = Some t \<and> \<not> TransferFinished t)) \<longrightarrow>
        Redis_FinishedHandlingACall c = c\<lparr>processing_call := False\<rparr>)"
  by (auto simp: Redis_HandleFinishedTransfer_def Redis_FinishedHandlingACall_def
      Redis_HandleIncomingCall_def QueueInboundCall_def DestroyConnection_def LOG_def Let_def)

theorem Redis_single_in_flight_witness:
  "messenger_queue (Redis_HandleFinishedTransfer example_redis_server)
     = [RedisInboundCall ''SET k v'']
   \<and> processing_call (Redis_HandleFinishedTransfer example_redis_server)
   \<and> inbound (Redis_HandleFinishedTransfer example_redis_server) = Some redis_second
   \<and> messenger_queue (Redis_HandleFinishedTransfer (Redis_HandleFinishedTransfer example_redis_server))
     = [RedisInboundCall ''SET k v'']
   \<and> inbound (Redis_HandleFinishedTransfer (Redis_HandleFinishedTransfer example_redis_server))
     = Some redis_second
   \<and> messenger_queue (Redis_FinishedHandlingACall (Redis_HandleFinishedTransfer example_redis_server))
     = [RedisInboundCall ''SET k v'', RedisInboundCall ''GET k'']
   \<and> processing_call (Redis_FinishedHandlingACall (Redis_HandleFinishedTransfer example_redis_server))
   \<and> inbound (Redis_FinishedHandlingACall (Redis_HandleFinishedTransfer example_redis_server)) = None"
proof -
  let ?c0 = example_redis_server
  let ?c1 = "Redis_HandleFinishedTransfer ?c0"
  have p0: "\<not> processing_call ?c0 \<and> inbound ?c0 = Some redis_first \<and> ok (parse_status redis_first)"
    by (simp add: example_redis_server_def EpollRegister_def MarkNegotiationComplete_def
        Connection_def redis_first_def)
  have q0: "messenger_queue ?c0 = []"
    by (simp add: example_redis_server_def EpollRegister_def MarkNegotiationComplete_def
        Connection_def)
  from Redis_single_in_flight [of ?c0 redis_first] p0
  have "processing_call ?c1
        \<and> messenger_queue ?c1 = messenger_queue ?c0 @ [RedisInboundCall (parsed_body redis_first)]
        \<and> inbound ?c1 = ExcessData redis_first"
    by blast
  then have s1: "processing_call ?c1" "messenger_queue ?c1 = [RedisInboundCall ''SET k v'']"
    "inbound ?c1 = Some redis_second"
    by (simp_all add: q0 redis_first_def)
  from Redis_single_in_flight [of ?c1 redis_second] s1(1)
  have "inbound (Redis_HandleFinishedTransfer ?c1) = inbound ?c1
        \<and> messenger_queue (Redis_HandleFinishedTransfer ?c1) = messenger_queue ?c1"
    by blast
  then have s2: "inbound (Redis_HandleFinishedTransfer ?c1) = Some redis_second"
    "messenger_queue (Redis_HandleFinishedTransfer ?c1) = [RedisInboundCall ''SET k v'']"
    by (simp_all add: s1)
  have p1: "inbound ?c1 = Some redis_second \<and> TransferFinished redis_second
            \<and> ok (parse_status redis_second)"
    using s1 by (simp add: redis_second_def)
  from Redis_single_in_flight [of ?c1 redis_second] p1
  have "processing_call (Redis_FinishedHandlingACall ?c1)
        \<and> messenger_queue (Redis_FinishedHandlingACall ?c1)
             = messenger_queue ?c1 @ [RedisInboundCall (parsed_body redis_second)]
        \<and> inbound (Redis_FinishedHandlingACall ?c1) = ExcessData redis_second"
    by blast
  then have s3: "processing_call (Redis_FinishedHandlingACall ?c1)"
    "messenger_queue (Redis_FinishedHandlingACall ?c1)
       = [RedisInboundCall ''SET k v'', RedisInboundCall ''GET k'']"
    "inbound (Redis_FinishedHandlingACall ?c1) = None"
    by (simp_all add: s1 redis_second_def)
  from s1 s2 s3 show ?thesis by simp
qed

text \<open>
  C1, as the code has it. On one connection, from its construction on and whatever else
  happens in between, as long as at most \<open>2^31 - 1\<close> invocations of
  \<^verbatim>\<open>QueueOutboundCall\<close> were not rejected for shutdown, the call ids given to these
  invocations are 1, 2, ..., N in invocation order, N being their number, and no call id
  is given twice.
\<close>

theorem call_ids_one_to_N:
  assumes "accepted_calls evs (Connection p d store) < 2147483648"
  shows "assigned_call_ids evs (Connection p d store)
           = map int [1..<Suc (accepted_calls evs (Connection p d store))]
    \<and> length (assigned_call_ids evs (Connection p d store))
         = accepted_calls evs (Connection p d store)
    \<and> distinct (assigned_call_ids evs (Connection p d store))"
proof -
  let ?N = "accepted_calls evs (Connection p d store)"
  have n: "next_call_id (Connection p d store) = 1" by (simp add: Connection_def)
  have "map (\<lambda>k. int32_t (1 + int k)) [0..<?N] = map (\<lambda>k. 1 + int k) [0..<?N]"
    using assms by (intro map_cong refl int32_t_id) auto
  moreover have "map (\<lambda>k. 1 + int k) [0..<n] = map int [1..<Suc n]" for n
    by (induction n) simp_all
  ultimately have eq: "assigned_call_ids evs (Connection p d store) = map int [1..<Suc ?N]"
    by (simp add: assigned_call_ids_from n)
  have "distinct (map int [1..<Suc ?N])"
    by (simp add: distinct_map del: upt_Suc)
  with eq show ?thesis by (simp del: upt_Suc)
qed

theorem call_ids_one_to_N_witness:
  "accepted_calls example_events example_client = 3
   \<and> assigned_call_ids example_events example_client = [1, 2, 3]"
proof -
  have a: "accepted_calls example_events example_client = 3"
    by (simp add: example_events_def event_defs)
  have b: "map int [1..<Suc 3] = [1, 2, 3]" by code_simp
  from a have "accepted_calls example_events (Connection YB CLIENT (\<lambda>h. example_call)) < 2147483648"
    by (simp add: example_client_def)
  from call_ids_one_to_N [OF this]
  have "assigned_call_ids example_events example_client
          = map int [1..<Suc (accepted_calls example_events example_client)]"
    unfolding example_client_def by blast
  with a b show ?thesis by (simp only:)
qed

text \<open>
  C1, as stated, fails for N = \<open>2^31\<close>: the call id is an \<^verbatim>\<open>int32_t\<close>, so the
  \<open>2^31\<close>-th call cannot get the id \<open>2^31\<close>.
\<close>

theorem call_ids_counterexample:
  "accepted_calls (map EvQueueOutboundCall [0..<2147483648]) example_client = 2147483648
   \<and> assigned_call_ids (map EvQueueOutboundCall [0..<2147483648]) example_client
       \<noteq> map int [1..<Suc 2147483648]"
proof -
  let ?evs = "map EvQueueOutboundCall [0..<2147483648]"
  have ok: "ok (shutdown_status example_client)"
    by (simp add: example_client_def Connection_def)
  have a: "accepted_calls ?evs example_client = 2147483648"
    by (simp add: accepted_calls_all [OF ok])
  have "assigned_call_ids ?evs example_client ! 2147483647 < 2147483648"
    by (simp add: assigned_call_ids_from a int32_t_range del: upt_Suc)
  moreover have "map int [1..<Suc 2147483648] ! 2147483647 = 2147483648"
    by (simp del: upt_Suc)
  ultimately have "assigned_call_ids ?evs example_client \<noteq> map int [1..<Suc 2147483648]"
    by (metis less_irrefl)
  with a show ?thesis by simp
qed

subsection \<open>Write interest\<close>

lemma write_interest_QueueOutbound:
  "write_interest c \<Longrightarrow> write_interest (QueueOutbound t c)"
  by (auto simp: write_interest_def QueueOutbound_def Abort_frame Let_def)

lemma write_interest_QueueOutboundCall:
  "write_interest c \<Longrightarrow> write_interest (QueueOutboundCall h c)"
  by (auto simp: QueueOutboundCall_def GetNextCallId_def new_OutboundTransfer_def Let_def
      update_call_def write_interest_def intro!: write_interest_QueueOutbound [unfolded write_interest_def])

lemma write_interest_QueueResponseForCall:
  "write_interest c \<Longrightarrow> write_interest (QueueResponseForCall call response c)"
  by (auto simp: QueueResponseForCall_def new_OutboundTransfer_def write_interest_def
      intro!: write_interest_QueueOutbound [unfolded write_interest_def])

lemma write_interest_Shutdown: "write_interest (Shutdown s c)"
  by (simp add: write_interest_def Shutdown_fields)

lemma write_interest_Serve:
  "write_interest c \<or> destroy_requests c \<noteq> [] \<Longrightarrow> write_interest (ServeDestroyRequests c)"
  by (auto simp: ServeDestroyRequests_def write_interest_Shutdown split: list.split)

lemma write_interest_frame_read:
  "frame_read c c' \<Longrightarrow> write_interest c \<Longrightarrow> write_interest c'"
  by (simp add: frame_read_def write_interest_def)

lemma write_loop_interest:
  "outbound_transfers c = ts \<Longrightarrow> write_interest c \<Longrightarrow>
   write_interest (write_loop sends ts c) \<or> destroy_requests (write_loop sends ts c) \<noteq> []"
proof (induction sends ts c rule: write_loop.induct)
  case (1 sends c)
  then show ?case by (simp add: write_interest_def)
next
  case (2 t ts c)
  then show ?case by simp
next
  case (3 r sends t ts c)
  show ?case
  proof (cases "ok (fst r)")
    case False
    then show ?thesis by (simp add: Let_def DestroyConnection_def)
  next
    case True
    show ?thesis
    proof (cases "snd r")
      case False
      with True 3(2,3) show ?thesis
        by (simp add: Let_def write_interest_def SendBuffer_fields)
    next
      case fin: True
      from 3(2,3) have "write_interest ((SendBuffer t r c)\<lparr>outbound_transfers := ts\<rparr>)"
        by (auto simp: write_interest_def SendBuffer_fields)
      with 3(1) [OF refl] True fin show ?thesis by (simp add: Let_def)
    qed
  qed
qed

lemma write_interest_WriteHandler:
  "write_interest c \<Longrightarrow>
   write_interest (WriteHandler ev_error sends c) \<or> destroy_requests (WriteHandler ev_error sends c) \<noteq> []"
  using write_loop_interest [of c "outbound_transfers c" sends]
  by (auto simp: WriteHandler_def DestroyConnection_def LOG_def write_interest_def)

lemma write_loop_drained:
  "outbound_transfers c = ts \<Longrightarrow> outbound_transfers (write_loop sends ts c) = [] \<Longrightarrow>
   \<not> write_io_active (write_loop sends ts c)"
proof (induction sends ts c rule: write_loop.induct)
  case (1 sends c)
  then show ?case by simp
next
  case (2 t ts c)
  then show ?case by simp
next
  case (3 r sends t ts c)
  show ?case
  proof (cases "ok (fst r) \<and> snd r")
    case True
    with 3 show ?thesis by (simp add: Let_def)
  next
    case False
    with 3(2,3) show ?thesis
      by (auto simp: Let_def DestroyConnection_def LOG_def SendBuffer_fields)
  qed
qed

lemma write_interest_apply_event:
  assumes "write_interest c" and "e \<noteq> EvMarkNegotiationComplete"
  shows "write_interest (apply_event e c)"
proof (cases e)
  case EvEpollRegister
  with assms show ?thesis by (auto simp: EpollRegister_def write_interest_def Let_def)
next
  case EvMarkNegotiationComplete
  with assms show ?thesis by simp
next
  case (EvQueueOutboundCall h)
  with assms show ?thesis by (simp add: write_interest_QueueOutboundCall)
next
  case (EvQueueResponse call response)
  with assms show ?thesis by (simp add: write_interest_QueueResponseForCall)
next
  case (EvTimeout i)
  with assms frame_read_HandleOutboundCallTimeout [of c i] show ?thesis
    by (simp add: write_interest_frame_read)
next
  case (EvReadReady ev_error recv)
  with assms frame_read_ReadHandler [of c ev_error recv] show ?thesis
    by (simp add: write_interest_frame_read write_interest_Serve)
next
  case (EvWriteReady ev_error sends)
  with assms write_interest_WriteHandler [of c ev_error sends] show ?thesis
    by (simp add: write_interest_Serve)
next
  case (EvShutdown s)
  then show ?thesis by (simp add: write_interest_Shutdown)
qed

text \<open>
  C8, as the code has it. The write-readiness invariant holds for a new connection and is
  kept by every event other than \<^verbatim>\<open>MarkNegotiationComplete\<close>;
  \<^verbatim>\<open>MarkNegotiationComplete\<close> keeps it when the queue is empty or the write watcher is
  already active, and on a client connection \<^verbatim>\<open>EpollRegister\<close> run right after it
  establishes it. \<^verbatim>\<open>QueueOutbound\<close> on an open connection whose negotiation is
  complete leaves the watcher started, and a write handler that drains the queue to empty
  leaves it stopped.
\<close>

theorem write_interest_maintained:
  "write_interest (Connection p d store)
   \<and> (write_interest c \<and> e \<noteq> EvMarkNegotiationComplete \<longrightarrow> write_interest (apply_event e c))
   \<and> (write_interest c \<and> (outbound_transfers c = [] \<or> write_io_active c) \<longrightarrow>
        write_interest (apply_event EvMarkNegotiationComplete c))
   \<and> (direction c = CLIENT \<longrightarrow> write_interest (EpollRegister (MarkNegotiationComplete c)))
   \<and> (ok (shutdown_status c) \<and> negotiation_complete c \<longrightarrow>
        write_io_active (QueueOutbound t c)
        \<and> outbound_transfers (QueueOutbound t c) = outbound_transfers c @ [t])
   \<and> (outbound_transfers (WriteHandler False sends c) = [] \<longrightarrow>
        \<not> write_io_active (WriteHandler False sends c))"
proof -
  have "outbound_transfers (WriteHandler False sends c) = [] \<longrightarrow>
        \<not> write_io_active (WriteHandler False sends c)"
    using write_loop_drained [of c "outbound_transfers c" sends]
    by (auto simp: WriteHandler_def LOG_def)
  moreover have "write_interest (Connection p d store)"
    by (simp add: write_interest_def Connection_def)
  moreover have "write_interest c \<and> e \<noteq> EvMarkNegotiationComplete \<longrightarrow>
      write_interest (apply_event e c)"
    using write_interest_apply_event by blast
  moreover have "write_interest c \<and> (outbound_transfers c = [] \<or> write_io_active c) \<longrightarrow>
        write_interest (apply_event EvMarkNegotiationComplete c)"
    by (auto simp: write_interest_def MarkNegotiationComplete_def)
  moreover have "direction c = CLIENT \<longrightarrow> write_interest (EpollRegister (MarkNegotiationComplete c))"
    by (simp add: write_interest_def MarkNegotiationComplete_def EpollRegister_def Let_def)
  moreover have "ok (shutdown_status c) \<and> negotiation_complete c \<longrightarrow>
        write_io_active (QueueOutbound t c)
        \<and> outbound_transfers (QueueOutbound t c) = outbound_transfers c @ [t]"
    by (simp add: QueueOutbound_def Let_def)
  ultimately show ?thesis by blast
qed

theorem write_interest_maintained_witness:
  "write_interest (QueueOutboundCall 0 open_client)
   \<and> write_interest (apply_event (EvWriteReady False [(OK, True)]) (QueueOutboundCall 0 open_client))
   \<and> write_io_active (QueueOutboundCall 0 open_client)
   \<and> write_interest (apply_event EvMarkNegotiationComplete (QueueOutboundCall 0 open_client))
   \<and> direction (QueueOutboundCall 0 open_client) = CLIENT
   \<and> write_interest (EpollRegister (MarkNegotiationComplete (QueueOutboundCall 0 open_client)))
   \<and> ok (shutdown_status (QueueOutboundCall 0 open_client))
   \<and> negotiation_complete (QueueOutboundCall 0 open_client)
   \<and> write_io_active
        (QueueOutbound \<lparr>transfer_id = 7, slices = [], callbacks = RedisResponseTransferCallbacks\<rparr>
           (QueueOutboundCall 0 open_client))
   \<and> outbound_transfers (WriteHandler False [(OK, True)] (QueueOutboundCall 0 open_client)) = []
   \<and> \<not> write_io_active (WriteHandler False [(OK, True)] (QueueOutboundCall 0 open_client))"
proof -
  let ?c = "QueueOutboundCall 0 open_client"
  have a: "write_interest ?c" "write_io_active ?c" "direction ?c = CLIENT"
    "ok (shutdown_status ?c)" "negotiation_complete ?c"
    by (simp_all add: write_interest_def open_client_def event_defs)
  have b: "EvWriteReady False [(OK, True)] \<noteq> EvMarkNegotiationComplete" by simp
  have d: "outbound_transfers (WriteHandler False [(OK, True)] ?c) = []"
    by (simp add: open_client_def event_defs WriteHandler_def SendBuffer_def fire_def)
  note T = write_interest_maintained [of YB CLIENT "\<lambda>h. example_call" ?c
      "EvWriteReady False [(OK, True)]"
      "\<lparr>transfer_id = 7, slices = [], callbacks = RedisResponseTransferCallbacks\<rparr>"
      "[(OK, True)]"]
  from T a b d show ?thesis by blast
qed

text \<open>
  C8, as stated, fails: a call queued while the connection negotiates leaves a non-empty
  queue with the watcher stopped, and \<^verbatim>\<open>MarkNegotiationComplete\<close> only sets the flag.
\<close>

theorem write_interest_counterexample:
  "run [EvEpollRegister, EvQueueOutboundCall 0, EvMarkNegotiationComplete] example_client
     = Some stalled_client
   \<and> outbound_transfers stalled_client \<noteq> []
   \<and> \<not> write_io_active stalled_client
   \<and> negotiation_complete stalled_client
   \<and> \<not> write_interest stalled_client"
  by (simp add: stalled_client_def write_interest_def event_defs)

subsection \<open>Transfer callbacks\<close>

lemma once_each_cong:
  "outbound_transfers c' = outbound_transfers c \<Longrightarrow> next_transfer_id c' = next_transfer_id c \<Longrightarrow>
   callback_edges c' = callback_edges c \<Longrightarrow> once_each c' = once_each c"
  by (simp add: once_each_def edges_of_def queued_def)

lemma once_each_frame_read: "frame_read c c' \<Longrightarrow> once_each c \<Longrightarrow> once_each c'"
  using once_each_cong [of c' c] by (simp add: frame_read_def)

lemma count_aborted:
  "distinct (map transfer_id ts) \<Longrightarrow>
   length (filter (\<lambda>p. fst p = n) (map (\<lambda>t. (transfer_id t, e)) ts))
     = (if n \<in> transfer_id ` set ts then 1 else 0)"
  by (induction ts) auto

lemma edges_of_Shutdown:
  "distinct (map transfer_id (outbound_transfers c)) \<Longrightarrow>
   edges_of n (Shutdown s c) = edges_of n c @ (if queued n c then [TransferAbortedEdge s] else [])"
proof -
  assume d: "distinct (map transfer_id (outbound_transfers c))"
  have "distinct (map transfer_id ts) \<Longrightarrow>
        map snd (filter (\<lambda>p. fst p = n) (map (\<lambda>t. (transfer_id t, TransferAbortedEdge s)) ts))
          = (if n \<in> transfer_id ` set ts then [TransferAbortedEdge s] else [])" for ts
    by (induction ts) auto
  from this [OF d] show ?thesis
    by (simp only: edges_of_def queued_def Shutdown_fields filter_append map_append)
qed

lemma once_each_Shutdown:
  assumes "once_each c"
  shows "once_each (Shutdown s c)"
proof -
  from assms have d: "distinct (map transfer_id (outbound_transfers c))"
    by (simp add: once_each_def)
  have "length (edges_of n (Shutdown s c))
          = (if n < next_transfer_id (Shutdown s c) \<and> \<not> queued n (Shutdown s c) then 1 else 0)" for n
    using assms unfolding edges_of_Shutdown [OF d]
    by (auto simp: once_each_def Shutdown_fields queued_def)
  then show ?thesis
    by (simp add: once_each_def Shutdown_fields)
qed

lemma once_each_Serve: "once_each c \<Longrightarrow> once_each (ServeDestroyRequests c)"
proof (cases "destroy_requests c")
  case Nil
  then show "once_each c \<Longrightarrow> ?thesis" by (simp add: ServeDestroyRequests_def)
next
  case (Cons s rest)
  assume "once_each c"
  then have "once_each (c\<lparr>destroy_requests := []\<rparr>)"
    using once_each_cong [of "c\<lparr>destroy_requests := []\<rparr>" c] by simp
  with Cons show ?thesis by (simp add: ServeDestroyRequests_def once_each_Shutdown)
qed

lemma once_each_new_transfer:
  assumes "once_each c"
  shows "once_each (QueueOutbound \<lparr>transfer_id = next_transfer_id c, slices = sl, callbacks = cb\<rparr>
                      (c\<lparr>next_transfer_id := Suc (next_transfer_id c)\<rparr>))"
proof (cases "ok (shutdown_status c)")
  case True
  with assms show ?thesis
    by (auto simp: once_each_def edges_of_def queued_def QueueOutbound_def Let_def)
next
  case False
  with assms show ?thesis
    by (auto simp: once_each_def edges_of_def queued_def QueueOutbound_def Abort_frame)
qed

lemma once_each_update_call: "once_each (update_call h f c) = once_each c"
  by (rule once_each_cong) (simp_all add: update_call_def)

lemma once_each_QueueOutboundCall: "once_each c \<Longrightarrow> once_each (QueueOutboundCall h c)"
proof -
  assume inv: "once_each c"
  show ?thesis
  proof (cases "ok (shutdown_status c) \<and> ok (serialize_status (calls c h))")
    case False
    with inv show ?thesis
      by (auto simp: QueueOutboundCall_def GetNextCallId_def Let_def once_each_update_call
          update_call_def set_call_id_def intro: once_each_cong [THEN iffD2, OF _ _ _ inv])
  next
    case True
    let ?c4 = "(update_call h SetQueued (update_call h (set_call_id (int32_t (next_call_id c)))
                 (c\<lparr>next_call_id := next_call_id c + 1\<rparr>)))
               \<lparr>awaiting_response := AList.update (int32_t (next_call_id c))
                   \<lparr>car_call = Some h, timeout_timer = timeout (calls c h)\<rparr> (awaiting_response c)\<rparr>"
    have "once_each ?c4 = once_each c"
      by (rule once_each_cong) (simp_all add: update_call_def)
    with inv have "once_each ?c4" by simp
    from once_each_new_transfer [OF this, of "request_slices (calls c h)" "CallTransferCallbacks h"]
    show ?thesis using True
      by (simp add: QueueOutboundCall_def GetNextCallId_def Let_def update_call_def
          set_call_id_def SetQueued_def new_OutboundTransfer_def)
  qed
qed

lemma once_each_QueueResponseForCall:
  "once_each c \<Longrightarrow> once_each (QueueResponseForCall call response c)"
  using once_each_new_transfer [of c response "GetResponseTransferCallback call"]
  by (simp add: QueueResponseForCall_def new_OutboundTransfer_def)

lemma once_each_sent:
  assumes "once_each c" and "outbound_transfers c = t # ts" and "ok (fst r) \<and> snd r"
  shows "once_each ((SendBuffer t r c)\<lparr>outbound_transfers := ts\<rparr>)"
  using assms
  by (auto simp: once_each_def edges_of_def queued_def SendBuffer_fields)

lemma once_each_write_loop:
  "outbound_transfers c = ts \<Longrightarrow> once_each c \<Longrightarrow> once_each (write_loop sends ts c)"
proof (induction sends ts c rule: write_loop.induct)
  case (1 sends c)
  then show ?case using once_each_cong [of "c\<lparr>write_io_active := False\<rparr>" c] by simp
next
  case (2 t ts c)
  then show ?case by simp
next
  case (3 r sends t ts c)
  show ?case
  proof (cases "ok (fst r) \<and> snd r")
    case True
    from once_each_sent [OF 3(3) 3(2) True] 3(1) True show ?thesis
      by (simp add: Let_def)
  next
    case False
    have "once_each (SendBuffer t r c) = once_each c"
      by (rule once_each_cong) (simp_all add: SendBuffer_fields False)
    moreover have "once_each (DestroyConnection (fst r) (LOG WARNING ''send error'' (SendBuffer t r c)))
        = once_each (SendBuffer t r c)"
      by (rule once_each_cong) (simp_all add: DestroyConnection_def LOG_def)
    ultimately show ?thesis using False 3(3) by (auto simp: Let_def)
  qed
qed

lemma once_each_WriteHandler: "once_each c \<Longrightarrow> once_each (WriteHandler ev_error sends c)"
proof -
  assume inv: "once_each c"
  have a: "once_each (DestroyConnection s c) = once_each c" for s
    by (rule once_each_cong) (simp_all add: DestroyConnection_def)
  have b: "once_each ((LOG l m c)\<lparr>write_io_active := False\<rparr>) = once_each c" for l m
    by (rule once_each_cong) (simp_all add: LOG_def)
  from inv a b once_each_write_loop [OF refl inv, of sends] show ?thesis
    by (simp add: WriteHandler_def)
qed

lemma once_each_apply_event: "once_each c \<Longrightarrow> once_each (apply_event e c)"
proof (cases e)
  case EvEpollRegister
  assume "once_each c"
  moreover have "once_each (EpollRegister c) = once_each c"
    by (rule once_each_cong) (simp_all add: EpollRegister_def Let_def)
  ultimately show ?thesis using EvEpollRegister by simp
next
  case EvMarkNegotiationComplete
  assume "once_each c"
  moreover have "once_each (MarkNegotiationComplete c) = once_each c"
    by (rule once_each_cong) (simp_all add: MarkNegotiationComplete_def)
  ultimately show ?thesis using EvMarkNegotiationComplete by simp
next
  case (EvQueueOutboundCall h)
  then show "once_each c \<Longrightarrow> ?thesis" by (simp add: once_each_QueueOutboundCall)
next
  case (EvQueueResponse call response)
  then show "once_each c \<Longrightarrow> ?thesis" by (simp add: once_each_QueueResponseForCall)
next
  case (EvTimeout i)
  then show "once_each c \<Longrightarrow> ?thesis"
    using once_each_frame_read [OF frame_read_HandleOutboundCallTimeout] by simp
next
  case (EvReadReady ev_error recv)
  then show "once_each c \<Longrightarrow> ?thesis"
    using once_each_frame_read [OF frame_read_ReadHandler] by (simp add: once_each_Serve)
next
  case (EvWriteReady ev_error sends)
  then show "once_each c \<Longrightarrow> ?thesis"
    by (simp add: once_each_Serve once_each_WriteHandler)
next
  case (EvShutdown s)
  then show "once_each c \<Longrightarrow> ?thesis" by (simp add: once_each_Shutdown)
qed

lemma once_each_run: "run evs c = Some c' \<Longrightarrow> once_each c \<Longrightarrow> once_each c'"
proof (induction evs arbitrary: c)
  case Nil
  then show ?case by simp
next
  case (Cons e evs)
  then show ?case by (auto split: if_splits intro: once_each_apply_event)
qed

lemma once_each_Connection: "once_each (Connection p d store)"
  by (simp add: once_each_def Connection_def edges_of_def queued_def)

text \<open>
  C7. In every state a connection reaches from its construction, a transfer that is still
  queued has had no callback edge, every other transfer allocated so far has had exactly
  one, and \<^verbatim>\<open>Shutdown(s)\<close> fires the aborted edge with status \<open>s\<close> exactly once for
  each queued transfer and nothing for the others, so that after it every transfer has
  had exactly one edge. A transfer handed to \<^verbatim>\<open>QueueOutbound\<close> after shutdown is
  aborted at once with the shutdown status, and the finished edge fires when
  \<^verbatim>\<open>SendBuffer\<close> completes the transfer.
\<close>

theorem transfer_callbacks_exactly_once:
  assumes "run evs (Connection p d store) = Some c"
  shows "(queued n c \<longrightarrow> n < next_transfer_id c \<and> edges_of n c = [])
    \<and> (n < next_transfer_id c \<and> \<not> queued n c \<longrightarrow> length (edges_of n c) = 1)
    \<and> (\<not> n < next_transfer_id c \<longrightarrow> edges_of n c = [])
    \<and> edges_of n (Shutdown s c)
        = edges_of n c @ (if queued n c then [TransferAbortedEdge s] else [])
    \<and> (n < next_transfer_id c \<longrightarrow> length (edges_of n (Shutdown s c)) = 1)
    \<and> outbound_transfers (Shutdown s c) = []
    \<and> (\<not> ok (shutdown_status c) \<longrightarrow>
         outbound_transfers (QueueOutbound t c) = outbound_transfers c
         \<and> callback_edges (QueueOutbound t c)
             = callback_edges c @ [(transfer_id t, TransferAbortedEdge (shutdown_status c))])
    \<and> callback_edges (SendBuffer t r c)
         = callback_edges c @ (if ok (fst r) \<and> snd r then [(transfer_id t, TransferFinishedEdge)] else [])"
proof -
  from once_each_run [OF assms once_each_Connection] have inv: "once_each c" .
  then have d: "distinct (map transfer_id (outbound_transfers c))"
    by (simp add: once_each_def)
  from inv have cnt: "length (edges_of n c) = (if n < next_transfer_id c \<and> \<not> queued n c then 1 else 0)"
    by (simp add: once_each_def)
  from inv have lt: "queued n c \<longrightarrow> n < next_transfer_id c"
    by (auto simp: once_each_def queued_def)
  have sh: "edges_of n (Shutdown s c)
        = edges_of n c @ (if queued n c then [TransferAbortedEdge s] else [])"
    by (rule edges_of_Shutdown [OF d])
  have "n < next_transfer_id c \<longrightarrow> length (edges_of n (Shutdown s c)) = 1"
    unfolding sh using cnt by simp
  moreover have "\<not> ok (shutdown_status c) \<longrightarrow>
         outbound_transfers (QueueOutbound t c) = outbound_transfers c
         \<and> callback_edges (QueueOutbound t c)
             = callback_edges c @ [(transfer_id t, TransferAbortedEdge (shutdown_status c))]"
    by (simp add: QueueOutbound_def Abort_frame)
  moreover have "queued n c \<longrightarrow> edges_of n c = []"
    using cnt by auto
  moreover have "\<not> n < next_transfer_id c \<longrightarrow> edges_of n c = []"
    using cnt by auto
  moreover have "n < next_transfer_id c \<and> \<not> queued n c \<longrightarrow> length (edges_of n c) = 1"
    using cnt by auto
  ultimately show ?thesis
    using lt sh by (simp add: Shutdown_fields SendBuffer_fields)
qed

theorem transfer_callbacks_exactly_once_witness:
  "run write_events example_client = Some half_sent_client
   \<and> edges_of 0 half_sent_client = [TransferFinishedEdge]
   \<and> queued 1 half_sent_client \<and> edges_of 1 half_sent_client = []
   \<and> edges_of 1 (Shutdown network_error half_sent_client) = [TransferAbortedEdge network_error]
   \<and> edges_of 0 (Shutdown network_error half_sent_client) = [TransferFinishedEdge]
   \<and> edges_of 2 half_sent_client = []
   \<and> run (write_events @ [EvShutdown network_error]) example_client
       = Some (Shutdown network_error half_sent_client)
   \<and> \<not> ok (shutdown_status (Shutdown network_error half_sent_client))
   \<and> callback_edges (QueueOutbound late_transfer (Shutdown network_error half_sent_client))
       = callback_edges (Shutdown network_error half_sent_client)
           @ [(2, TransferAbortedEdge network_error)]"
proof -
  have r: "run write_events example_client = Some half_sent_client"
    by (simp add: write_events_def half_sent_client_def write_defs)
  have r2: "run (write_events @ [EvShutdown network_error]) example_client
       = Some (Shutdown network_error half_sent_client)"
    by (simp add: write_events_def half_sent_client_def write_defs)
  have q: "queued 1 half_sent_client" "\<not> queued 0 half_sent_client"
    "0 < next_transfer_id half_sent_client" "\<not> 2 < next_transfer_id half_sent_client"
    by (simp_all add: half_sent_client_def write_defs)
  have e0: "edges_of 0 half_sent_client = [TransferFinishedEdge]"
    by (simp add: half_sent_client_def write_defs)
  have st: "\<not> ok (shutdown_status (Shutdown network_error half_sent_client))"
    "shutdown_status (Shutdown network_error half_sent_client) = network_error"
    by (simp_all add: Shutdown_fields network_error_def)
  note T = transfer_callbacks_exactly_once [OF r [unfolded example_client_def]]
  note T2 = transfer_callbacks_exactly_once [OF r2 [unfolded example_client_def]]
  from T [of 1 network_error late_transfer "(OK, True)"] q
  have a: "edges_of 1 half_sent_client = []"
    "edges_of 1 (Shutdown network_error half_sent_client) = [TransferAbortedEdge network_error]"
    by simp_all
  from T [of 0 network_error late_transfer "(OK, True)"] q e0
  have b: "edges_of 0 (Shutdown network_error half_sent_client) = [TransferFinishedEdge]"
    by simp
  from T [of 2 network_error late_transfer "(OK, True)"] q
  have c: "edges_of 2 half_sent_client = []" by simp
  from T2 [of 2 network_error late_transfer "(OK, True)"] st
  have d: "callback_edges (QueueOutbound late_transfer (Shutdown network_error half_sent_client))
       = callback_edges (Shutdown network_error half_sent_client)
           @ [(2, TransferAbortedEdge network_error)]"
    by (simp add: late_transfer_def)
  from r r2 q e0 st a b c d show ?thesis by simp
qed

subsection \<open>Completion of outbound calls\<close>

lemma update_fresh: "k \<notin> fst ` set m \<Longrightarrow> AList.update k v m = m @ [(k, v)]"
  by (induction m) auto

lemma in_set_update:
  "distinct (map fst m) \<Longrightarrow>
   p \<in> set (AList.update k v m) \<longleftrightarrow> p = (k, v) \<or> (p \<in> set m \<and> fst p \<noteq> k)"
  by (induction m) (auto simp: rev_image_eqI)

lemma in_set_delete: "p \<in> set (AList.delete k m) \<longleftrightarrow> p \<in> set m \<and> fst p \<noteq> k"
  by (auto simp: AList.delete_eq)

lemma at_most_one:
  "distinct (map fst m) \<Longrightarrow> (\<forall>p \<in> set m. P p \<longrightarrow> fst p = i) \<Longrightarrow> length (filter P m) \<le> 1"
proof (induction m)
  case Nil
  show ?case by simp
next
  case (Cons p m)
  show ?case
  proof (cases "P p")
    case True
    with Cons.prems have "fst p = i" by simp
    with Cons.prems have "\<forall>q \<in> set m. \<not> P q" by (auto simp: rev_image_eqI)
    then have "filter P m = []" by (simp add: filter_empty_conv)
    with True show ?thesis by simp
  next
    case False
    with Cons show ?thesis by simp
  qed
qed

lemma terminal_edges_simps:
  "terminal_edges (SetQueued cl) = terminal_edges cl"
  "terminal_edges (SetSent cl) = terminal_edges cl"
  "terminal_edges (SetTimedOut cl) = terminal_edges cl @ [TimedOut]"
  "terminal_edges (SetFailed s cl) = terminal_edges cl @ [Failed s]"
  "terminal_edges (SetResponse i b cl) = terminal_edges cl @ [Response i b]"
  "terminal_edges (set_call_id i cl) = terminal_edges cl"
  by (simp_all add: terminal_edges_def SetQueued_def SetSent_def SetTimedOut_def SetFailed_def
      SetResponse_def set_call_id_def)

lemma fresh_terminal: "fresh_call cl \<Longrightarrow> terminal_edges cl = [] \<and> history cl = []"
  by (simp add: fresh_call_def terminal_edges_def)

lemma calls_inv_queue:
  assumes "calls_inv m st q nxt" and "fresh_call (st h)"
    and "callbacks t = CallTransferCallbacks h"
    and "call_id cl = Some nxt" and "terminal_edges cl = []" and "history cl \<noteq> []"
  shows "calls_inv (AList.update nxt \<lparr>car_call = Some h, timeout_timer = tm\<rparr> m)
           (st(h := cl)) (q @ [t]) (nxt + 1)"
proof -
  from assms(1) have "nxt \<notin> fst ` set m" by (auto simp: calls_inv_def)
  then have u: "AList.update nxt \<lparr>car_call = Some h, timeout_timer = tm\<rparr> m
      = m @ [(nxt, \<lparr>car_call = Some h, timeout_timer = tm\<rparr>)]"
    by (rule update_fresh)
  from assms(1,2) have nl: "\<forall>p \<in> set m. car_call (snd p) \<noteq> Some h"
    by (auto simp: calls_inv_def fresh_call_def)
  show ?thesis
    unfolding u using assms nl \<open>nxt \<notin> fst ` set m\<close>
    by (auto simp: calls_inv_def)
qed

lemma calls_inv_fail:
  assumes "calls_inv m st q nxt" and "fresh_call (st h)"
    and "history cl = [Failed s]" and "nxt \<le> nxt'"
  shows "calls_inv m (st(h := cl)) q nxt'"
proof -
  from assms(1,2) have nl: "\<forall>p \<in> set m. car_call (snd p) \<noteq> Some h"
    by (auto simp: calls_inv_def fresh_call_def)
  from assms(3) have "terminal_edges cl = [Failed s]" by (simp add: terminal_edges_def)
  with assms nl show ?thesis
    by (fastforce simp: calls_inv_def)
qed

lemma same_key:
  assumes "distinct (map fst m)" and "(k, v) \<in> set m" and "p \<in> set m" and "fst p = k"
  shows "snd p = v"
proof -
  obtain a b where p: "p = (a, b)" by (cases p)
  with assms have "(k, b) \<in> set m" by simp
  from eq_key_imp_eq_value [OF assms(1) this assms(2)] p show ?thesis by simp
qed

lemma live_key:
  assumes "calls_inv m st q nxt" and "p \<in> set m" and "car_call (snd p) = Some h"
    and "p' \<in> set m" and "car_call (snd p') = Some h"
  shows "p' = p"
proof -
  from assms(1,2,3) have "call_id (st h) = Some (fst p)"
    unfolding calls_inv_def by blast
  moreover from assms(1,4,5) have "call_id (st h) = Some (fst p')"
    unfolding calls_inv_def by blast
  ultimately have k: "fst p' = fst p" by simp
  from assms(1) have d: "distinct (map fst m)" by (simp add: calls_inv_def)
  from assms(2) have "(fst p, snd p) \<in> set m" by simp
  from same_key [OF d this assms(4) k] k show ?thesis by (simp add: prod_eq_iff)
qed

lemma calls_inv_timeout:
  assumes inv: "calls_inv m st q nxt" and look: "map_of m i = Some e"
    and h: "car_call e = Some h"
  shows "calls_inv (AList.update i (e\<lparr>car_call := None, timeout_timer := None\<rparr>) m)
           (st(h := SetTimedOut (st h))) q nxt"
proof -
  from look have mem: "(i, e) \<in> set m" by (rule map_of_SomeD)
  from inv have d: "distinct (map fst m)" by (simp add: calls_inv_def)
  have other: "p \<in> set m \<Longrightarrow> fst p \<noteq> i \<Longrightarrow> car_call (snd p) \<noteq> Some h" for p
    using live_key [OF inv mem, of h p] h by auto
  from inv mem h have te: "terminal_edges (st h) = []"
    unfolding calls_inv_def by (metis snd_conv)
  have hist: "history (SetTimedOut (st h)) \<noteq> []" by (simp add: SetTimedOut_def)
  show ?thesis
    unfolding calls_inv_def
  proof (intro conjI ballI allI impI)
    show "distinct (map fst (AList.update i (e\<lparr>car_call := None, timeout_timer := None\<rparr>) m))"
      using d by (rule distinct_update)
  next
    fix p assume "p \<in> set (AList.update i (e\<lparr>car_call := None, timeout_timer := None\<rparr>) m)"
    with inv mem show "fst p < nxt" by (auto simp: in_set_update [OF d] calls_inv_def)
  next
    fix p h'
    assume p: "p \<in> set (AList.update i (e\<lparr>car_call := None, timeout_timer := None\<rparr>) m)"
      and l: "car_call (snd p) = Some h'"
    from p have "p = (i, e\<lparr>car_call := None, timeout_timer := None\<rparr>) \<or> (p \<in> set m \<and> fst p \<noteq> i)"
      by (simp only: in_set_update [OF d])
    moreover have "p \<noteq> (i, e\<lparr>car_call := None, timeout_timer := None\<rparr>)"
    proof
      assume "p = (i, e\<lparr>car_call := None, timeout_timer := None\<rparr>)"
      then have "car_call (snd p) = None" by simp
      with l show False by simp
    qed
    ultimately have pm: "p \<in> set m" "fst p \<noteq> i" by blast+
    from other [OF pm] l have "h' \<noteq> h" by blast
    with inv pm l show "call_id ((st(h := SetTimedOut (st h))) h') = Some (fst p)"
      "terminal_edges ((st(h := SetTimedOut (st h))) h') = []"
      "history ((st(h := SetTimedOut (st h))) h') \<noteq> []"
      by (auto simp: calls_inv_def)
  next
    fix h'
    from inv te show "length (terminal_edges ((st(h := SetTimedOut (st h))) h')) \<le> 1"
      by (auto simp: calls_inv_def terminal_edges_simps)
  next
    fix h' assume ne: "history ((st(h := SetTimedOut (st h))) h') \<noteq> []"
    show "length (terminal_edges ((st(h := SetTimedOut (st h))) h')) = 1
          \<or> (\<exists>p \<in> set (AList.update i (e\<lparr>car_call := None, timeout_timer := None\<rparr>) m).
                car_call (snd p) = Some h')"
    proof (cases "h' = h")
      case True
      with te show ?thesis by (simp add: terminal_edges_simps)
    next
      case False
      with ne inv have "length (terminal_edges (st h')) = 1
          \<or> (\<exists>p \<in> set m. car_call (snd p) = Some h')"
        by (simp add: calls_inv_def)
      then show ?thesis
      proof
        assume "length (terminal_edges (st h')) = 1"
        with False show ?thesis by simp
      next
        assume "\<exists>p \<in> set m. car_call (snd p) = Some h'"
        then obtain p where p: "p \<in> set m" "car_call (snd p) = Some h'" by blast
        have "fst p \<noteq> i"
        proof
          assume "fst p = i"
          from same_key [OF d mem p(1) this] p(2) h False show False by simp
        qed
        with p show ?thesis by (auto simp: in_set_update [OF d])
      qed
    qed
  next
    fix t h' assume "t \<in> set q" "callbacks t = CallTransferCallbacks h'"
    with inv hist show "history ((st(h := SetTimedOut (st h))) h') \<noteq> []"
      by (auto simp: calls_inv_def)
  qed
qed

lemma calls_inv_response:
  assumes inv: "calls_inv m st q nxt" and look: "map_of m i = Some e"
    and st': "st' = (case car_call e of None \<Rightarrow> st | Some h \<Rightarrow> st(h := SetResponse i b (st h)))"
  shows "calls_inv (AList.delete i m) st' q nxt"
proof -
  from look have mem: "(i, e) \<in> set m" by (rule map_of_SomeD)
  from inv have d: "distinct (map fst m)" by (simp add: calls_inv_def)
  have keep: "st' h' = st h'" if "p \<in> set m" "fst p \<noteq> i" "car_call (snd p) = Some h'" for p h'
  proof (cases "car_call e")
    case None
    with st' show ?thesis by simp
  next
    case (Some h)
    have "h' \<noteq> h"
    proof
      assume "h' = h"
      with that Some live_key [OF inv mem, of h p] show False by auto
    qed
    with st' Some show ?thesis by simp
  qed
  have te_hit: "terminal_edges (st' h') = [Response i b]" if "car_call e = Some h'" for h'
  proof -
    from inv mem that have "terminal_edges (st h') = []"
      unfolding calls_inv_def by (metis snd_conv)
    with st' that show ?thesis by (simp add: terminal_edges_simps)
  qed
  have te_miss: "terminal_edges (st' h') = terminal_edges (st h')" if "car_call e \<noteq> Some h'" for h'
    using st' that by (cases "car_call e") auto
  have hist: "history (st h') \<noteq> [] \<Longrightarrow> history (st' h') \<noteq> []" for h'
    using st' by (cases "car_call e") (auto simp: SetResponse_def)
  have hist': "history (st' h') \<noteq> [] \<Longrightarrow> history (st h') \<noteq> []" for h'
  proof (cases "car_call e")
    case None
    with st' show "history (st' h') \<noteq> [] \<Longrightarrow> ?thesis" by simp
  next
    case (Some h)
    from inv mem Some have "history (st h) \<noteq> []"
      unfolding calls_inv_def by (metis snd_conv)
    with st' Some show "history (st' h') \<noteq> [] \<Longrightarrow> ?thesis" by (cases "h' = h") simp_all
  qed
  show ?thesis
    unfolding calls_inv_def
  proof (intro conjI ballI allI impI)
    show "distinct (map fst (AList.delete i m))" using d by (rule distinct_delete)
  next
    fix p assume "p \<in> set (AList.delete i m)"
    with inv show "fst p < nxt" by (simp add: in_set_delete calls_inv_def)
  next
    fix p h' assume p: "p \<in> set (AList.delete i m)" and l: "car_call (snd p) = Some h'"
    then have pm: "p \<in> set m" "fst p \<noteq> i" by (simp_all add: in_set_delete)
    from inv pm(1) l have "call_id (st h') = Some (fst p) \<and> terminal_edges (st h') = []
        \<and> history (st h') \<noteq> []"
      unfolding calls_inv_def by blast
    with keep [OF pm l] show "call_id (st' h') = Some (fst p)" "terminal_edges (st' h') = []"
      "history (st' h') \<noteq> []" by simp_all
  next
    fix h'
    from inv have "length (terminal_edges (st h')) \<le> 1" by (simp add: calls_inv_def)
    with te_hit [of h'] te_miss [of h'] show "length (terminal_edges (st' h')) \<le> 1"
      by (cases "car_call e = Some h'") simp_all
  next
    fix h' assume ne: "history (st' h') \<noteq> []"
    from hist' [OF ne] inv have old: "length (terminal_edges (st h')) = 1
        \<or> (\<exists>p \<in> set m. car_call (snd p) = Some h')"
      by (simp add: calls_inv_def)
    show "length (terminal_edges (st' h')) = 1
          \<or> (\<exists>p \<in> set (AList.delete i m). car_call (snd p) = Some h')"
    proof (cases "car_call e = Some h'")
      case True
      from te_hit [OF True] have "length (terminal_edges (st' h')) = 1" by simp
      then show ?thesis ..
    next
      case False
      from te_miss [OF False] have same: "terminal_edges (st' h') = terminal_edges (st h')" .
      from old show ?thesis
      proof
        assume "length (terminal_edges (st h')) = 1"
        with same show ?thesis by simp
      next
        assume "\<exists>p \<in> set m. car_call (snd p) = Some h'"
        then obtain p where p: "p \<in> set m" "car_call (snd p) = Some h'" by blast
        have "fst p \<noteq> i"
        proof
          assume "fst p = i"
          from same_key [OF d mem p(1) this] p(2) False show False by simp
        qed
        with p show ?thesis by (auto simp: in_set_delete)
      qed
    qed
  next
    fix t h' assume "t \<in> set q" "callbacks t = CallTransferCallbacks h'"
    with inv have "history (st h') \<noteq> []" unfolding calls_inv_def by blast
    then show "history (st' h') \<noteq> []" by (rule hist)
  qed
qed

lemma calls_inv_sent:
  assumes inv: "calls_inv m st q nxt" and ne: "history (st h) \<noteq> []"
  shows "calls_inv m (st(h := SetSent (st h))) q nxt"
proof -
  let ?st' = "st(h := SetSent (st h))"
  have eq: "call_id (?st' k) = call_id (st k)" "terminal_edges (?st' k) = terminal_edges (st k)"
    "history (?st' k) \<noteq> [] \<longleftrightarrow> history (st k) \<noteq> []" for k
  proof -
    show "call_id (?st' k) = call_id (st k)" by (simp add: SetSent_def)
    show "terminal_edges (?st' k) = terminal_edges (st k)" by (simp add: terminal_edges_simps)
    show "history (?st' k) \<noteq> [] \<longleftrightarrow> history (st k) \<noteq> []"
      using ne by (simp add: SetSent_def)
  qed
  from inv show ?thesis
    unfolding calls_inv_def eq by simp
qed

lemma calls_inv_subqueue:
  "calls_inv m st q nxt \<Longrightarrow> set q' \<subseteq> set q \<Longrightarrow> calls_inv m st q' nxt"
  unfolding calls_inv_def by blast

lemma calls_inv_response_transfer:
  "calls_inv m st q nxt \<Longrightarrow> callbacks t = GetResponseTransferCallback call \<Longrightarrow>
   calls_inv m st (q @ [t]) nxt"
  unfolding calls_inv_def by (cases call) auto

lemma calls_inv_shutdown:
  assumes inv: "calls_inv m st q nxt"
  shows "calls_inv [] (fail_awaiting s m st) [] nxt"
proof -
  let ?k = "\<lambda>h. length (filter (\<lambda>p. car_call (snd p) = Some h) m)"
  from inv have d: "distinct (map fst m)" by (simp add: calls_inv_def)
  have te: "terminal_edges (fail_awaiting s m st h) = terminal_edges (st h) @ replicate (?k h) (Failed s)" for h
    by (simp add: terminal_edges_def fail_awaiting_history)
  have k0: "?k h = 0" if "\<not> (\<exists>p \<in> set m. car_call (snd p) = Some h)" for h
    using that by (simp add: filter_empty_conv)
  have k1: "?k h = 1 \<and> terminal_edges (st h) = []" if "p \<in> set m" "car_call (snd p) = Some h" for p h
  proof -
    from inv that have c: "call_id (st h) = Some (fst p)" and t: "terminal_edges (st h) = []"
      unfolding calls_inv_def by blast+
    have "\<forall>p' \<in> set m. car_call (snd p') = Some h \<longrightarrow> fst p' = fst p"
    proof (intro ballI impI)
      fix p' assume "p' \<in> set m" "car_call (snd p') = Some h"
      with inv have "call_id (st h) = Some (fst p')" unfolding calls_inv_def by blast
      with c show "fst p' = fst p" by simp
    qed
    from at_most_one [OF d this] have "?k h \<le> 1" .
    moreover from that have "filter (\<lambda>p. car_call (snd p) = Some h) m \<noteq> []"
      by (simp add: filter_empty_conv) blast
    then have "0 < ?k h" by simp
    ultimately have "?k h = 1" by arith
    with t show ?thesis by simp
  qed
  show ?thesis
    unfolding calls_inv_def
  proof (intro conjI ballI allI impI)
    fix h
    show "length (terminal_edges (fail_awaiting s m st h)) \<le> 1"
    proof (cases "\<exists>p \<in> set m. car_call (snd p) = Some h")
      case True
      then obtain p where "p \<in> set m" "car_call (snd p) = Some h" by blast
      from k1 [OF this] show ?thesis by (simp add: te)
    next
      case False
      from k0 [OF False] inv show ?thesis by (simp add: te calls_inv_def)
    qed
  next
    fix h assume ne: "history (fail_awaiting s m st h) \<noteq> []"
    show "length (terminal_edges (fail_awaiting s m st h)) = 1
          \<or> (\<exists>p \<in> set []. car_call (snd p) = Some h)"
    proof (cases "\<exists>p \<in> set m. car_call (snd p) = Some h")
      case True
      then obtain p where "p \<in> set m" "car_call (snd p) = Some h" by blast
      from k1 [OF this] show ?thesis by (simp add: te)
    next
      case False
      from k0 [OF False] ne have "history (st h) \<noteq> []" by (simp add: fail_awaiting_history)
      with inv False have "length (terminal_edges (st h)) = 1" unfolding calls_inv_def by blast
      with k0 [OF False] show ?thesis by (simp add: te)
    qed
  qed simp_all
qed

lemma call_inv_cong:
  "awaiting_response c' = awaiting_response c \<Longrightarrow> calls c' = calls c \<Longrightarrow>
   outbound_transfers c' = outbound_transfers c \<Longrightarrow> next_call_id c' = next_call_id c \<Longrightarrow>
   call_inv c' = call_inv c"
  by (simp add: call_inv_def)

lemma call_inv_frame: "frame c c' \<Longrightarrow> call_inv c \<Longrightarrow> call_inv c'"
  using call_inv_cong [of c' c] by (simp add: frame_def)

lemma call_inv_Shutdown: "call_inv c \<Longrightarrow> call_inv (Shutdown s c)"
  by (simp add: call_inv_def Shutdown_fields calls_inv_shutdown)

lemma call_inv_Serve: "call_inv c \<Longrightarrow> call_inv (ServeDestroyRequests c)"
proof (cases "destroy_requests c")
  case Nil
  then show "call_inv c \<Longrightarrow> ?thesis" by (simp add: ServeDestroyRequests_def)
next
  case (Cons s rest)
  assume "call_inv c"
  moreover have "call_inv (c\<lparr>destroy_requests := []\<rparr>) = call_inv c"
    by (rule call_inv_cong) simp_all
  ultimately show ?thesis using Cons by (simp add: ServeDestroyRequests_def call_inv_Shutdown)
qed

lemma call_inv_QueueOutboundCall:
  assumes inv: "call_inv c" and fresh: "fresh_call (calls c h)"
    and lo: "- 2147483648 \<le> next_call_id c"
    and hi: "ok (shutdown_status c) \<Longrightarrow> next_call_id c < 2147483648"
  shows "call_inv (QueueOutboundCall h c)"
proof (cases "ok (shutdown_status c)")
  case False
  from fresh have "history (SetFailed (shutdown_status c) (calls c h)) = [Failed (shutdown_status c)]"
    by (simp add: SetFailed_def fresh_call_def)
  from calls_inv_fail [OF inv [unfolded call_inv_def] fresh this order_refl] False
  show ?thesis by (simp add: call_inv_def QueueOutboundCall_def update_call_def)
next
  case True
  let ?i = "next_call_id c"
  from int32_t_id [OF lo hi [OF True]] have i: "int32_t ?i = ?i" .
  show ?thesis
  proof (cases "ok (serialize_status (calls c h))")
    case False
    from fresh have "history (SetFailed (serialize_status (calls c h)) (set_call_id ?i (calls c h)))
        = [Failed (serialize_status (calls c h))]"
      by (simp add: SetFailed_def set_call_id_def fresh_call_def)
    from calls_inv_fail [OF inv [unfolded call_inv_def] fresh this, of "?i + 1"] True False
    show ?thesis
      by (simp add: call_inv_def QueueOutboundCall_def GetNextCallId_def update_call_def
          set_call_id_def Let_def i)
  next
    case ser: True
    let ?cl = "SetQueued (set_call_id ?i (calls c h))"
    let ?t = "\<lparr>transfer_id = next_transfer_id c, slices = request_slices (calls c h),
               callbacks = CallTransferCallbacks h\<rparr>"
    have cl: "call_id ?cl = Some ?i" "terminal_edges ?cl = []" "history ?cl \<noteq> []"
      using fresh by (simp_all add: SetQueued_def set_call_id_def terminal_edges_def fresh_call_def)
    have t: "callbacks ?t = CallTransferCallbacks h" by simp
    from calls_inv_queue [OF inv [unfolded call_inv_def] fresh t cl, of "timeout (calls c h)"]
      True ser
    show ?thesis
      by (simp add: call_inv_def QueueOutboundCall_def GetNextCallId_def update_call_def
          set_call_id_def SetQueued_def Let_def new_OutboundTransfer_def QueueOutbound_def i)
  qed
qed

lemma call_inv_QueueResponseForCall:
  assumes inv: "call_inv c"
  shows "call_inv (QueueResponseForCall call response c)"
proof (cases "ok (shutdown_status c)")
  case True
  let ?t = "\<lparr>transfer_id = next_transfer_id c, slices = response,
             callbacks = GetResponseTransferCallback call\<rparr>"
  have "callbacks ?t = GetResponseTransferCallback call" by simp
  from calls_inv_response_transfer [OF inv [unfolded call_inv_def] this]
  have "calls_inv (awaiting_response c) (calls c) (outbound_transfers c @ [?t]) (next_call_id c)" .
  with True show ?thesis
    by (simp add: call_inv_def QueueResponseForCall_def new_OutboundTransfer_def
        QueueOutbound_def Let_def)
next
  case False
  with inv show ?thesis
    by (simp add: call_inv_def QueueResponseForCall_def new_OutboundTransfer_def
        QueueOutbound_def Abort_frame)
qed

lemma call_inv_HandleOutboundCallTimeout:
  assumes inv: "call_inv c"
  shows "call_inv (HandleOutboundCallTimeout i c)"
proof (cases "map_of (awaiting_response c) i")
  case None
  with inv show ?thesis by (simp add: HandleOutboundCallTimeout_def)
next
  case (Some e)
  show ?thesis
  proof (cases "car_call e")
    case None
    with Some inv show ?thesis by (simp add: HandleOutboundCallTimeout_def)
  next
    case h: (Some h)
    from calls_inv_timeout [OF inv [unfolded call_inv_def] Some h] Some h show ?thesis
      by (simp add: call_inv_def HandleOutboundCallTimeout_def update_call_def Let_def)
  qed
qed

lemma call_inv_HandleCallResponse:
  assumes inv: "call_inv c"
  shows "call_inv (HandleCallResponse t c)"
proof (cases "ok (parse_status t)")
  case False
  with inv show ?thesis by (simp add: HandleCallResponse_def CHECK_failed_def call_inv_def)
next
  case True
  show ?thesis
  proof (cases "map_of (awaiting_response c) (parsed_call_id t)")
    case None
    with True inv show ?thesis
      by (simp add: HandleCallResponse_def EraseKeyReturnValuePtr_def delete_absent LOG_def
          call_inv_def)
  next
    case (Some e)
    from calls_inv_response [OF inv [unfolded call_inv_def] Some refl,
        of "parsed_body t"] True Some
    show ?thesis
      by (cases "car_call e")
        (simp_all add: call_inv_def HandleCallResponse_def EraseKeyReturnValuePtr_def LOG_def
          update_call_def)
  qed
qed

lemma call_inv_YB_HandleIncomingCall: "call_inv c \<Longrightarrow> call_inv (YB_HandleIncomingCall t c)"
proof -
  have "call_inv (YB_HandleIncomingCall t c) = call_inv c"
    by (rule call_inv_cong)
      (simp_all add: YB_HandleIncomingCall_def InsertIfNotPresent_def DestroyConnection_def
        LOG_def QueueInboundCall_def Let_def split: option.split)
  then show "call_inv c \<Longrightarrow> ?thesis" by simp
qed

lemma call_inv_inbound: "call_inv (c\<lparr>inbound := x\<rparr>) = call_inv c"
  by (rule call_inv_cong) simp_all

lemma call_inv_HandleFinishedTransfer:
  assumes inv: "call_inv c"
  shows "call_inv (HandleFinishedTransfer c)"
proof (cases "protocol c")
  case YB
  show ?thesis
  proof (cases "inbound c")
    case None
    with YB inv show ?thesis
      by (simp add: HandleFinishedTransfer_def YB_HandleFinishedTransfer_def CHECK_failed_def
          call_inv_def)
  next
    case (Some t)
    from inv have "call_inv (c\<lparr>inbound := None\<rparr>)" by (simp add: call_inv_inbound)
    with YB Some show ?thesis
      by (simp add: HandleFinishedTransfer_def YB_HandleFinishedTransfer_def
          call_inv_HandleCallResponse call_inv_YB_HandleIncomingCall split: direction.split)
  qed
next
  case Redis
  with call_inv_frame [OF frame_Redis_HandleFinishedTransfer inv] show ?thesis
    by (simp add: HandleFinishedTransfer_def)
next
  case CQL
  with call_inv_frame [OF frame_CQL_HandleFinishedTransfer inv] show ?thesis
    by (simp add: HandleFinishedTransfer_def)
qed

lemma call_inv_ReadHandler:
  assumes inv: "call_inv c"
  shows "call_inv (ReadHandler ev_error recv c)"
proof -
  obtain s e t where r: "recv = (s, e, t)" by (cases recv)
  have a: "call_inv (DestroyConnection x (LOG l m c')) = call_inv c'" for x l m c'
    by (rule call_inv_cong) (simp_all add: DestroyConnection_def LOG_def)
  have b: "call_inv (DestroyConnection x c) = call_inv c" for x
    by (rule call_inv_cong) (simp_all add: DestroyConnection_def)
  have d: "call_inv (LOG l m c') = call_inv c'" for l m c'
    by (rule call_inv_cong) (simp_all add: LOG_def)
  from inv have i: "call_inv (c\<lparr>inbound := Some t\<rparr>)" by (simp add: call_inv_inbound)
  from call_inv_HandleFinishedTransfer [OF i] inv i show ?thesis
    by (simp add: r ReadHandler_def Let_def a b d)
qed

lemma SendBuffer_calls_cases:
  "calls (SendBuffer t r c) = calls c
   \<or> (\<exists>h. callbacks t = CallTransferCallbacks h
          \<and> calls (SendBuffer t r c) = (calls c)(h := SetSent (calls c h)))"
proof (cases "callbacks t")
  case (CallTransferCallbacks h)
  then show ?thesis by (simp add: SendBuffer_def fire_def update_call_def)
next
  case (YBResponseTransferCallbacks i)
  then show ?thesis by (simp add: SendBuffer_def fire_def)
next
  case RedisResponseTransferCallbacks
  with frame_Redis_FinishedHandlingACall [of "fire t TransferFinishedEdge c"] show ?thesis
    by (simp add: SendBuffer_def fire_def frame_def)
next
  case CQLResponseTransferCallbacks
  with frame_CQL_FinishedHandlingACall [of "fire t TransferFinishedEdge c"] show ?thesis
    by (simp add: SendBuffer_def fire_def frame_def)
qed

lemma call_inv_SendBuffer:
  assumes inv: "call_inv c" and t: "t \<in> set (outbound_transfers c)"
  shows "call_inv (SendBuffer t r c)"
proof -
  from SendBuffer_calls_cases [of t r c] show ?thesis
  proof
    assume "calls (SendBuffer t r c) = calls c"
    with inv show ?thesis by (simp add: call_inv_def SendBuffer_fields)
  next
    assume "\<exists>h. callbacks t = CallTransferCallbacks h
               \<and> calls (SendBuffer t r c) = (calls c)(h := SetSent (calls c h))"
    then obtain h where h: "callbacks t = CallTransferCallbacks h"
      and eq: "calls (SendBuffer t r c) = (calls c)(h := SetSent (calls c h))" by blast
    from inv t h have "history (calls c h) \<noteq> []"
      unfolding call_inv_def calls_inv_def by blast
    from calls_inv_sent [OF inv [unfolded call_inv_def] this] eq show ?thesis
      by (simp add: call_inv_def SendBuffer_fields)
  qed
qed

lemma call_inv_write_loop:
  "outbound_transfers c = ts \<Longrightarrow> call_inv c \<Longrightarrow> call_inv (write_loop sends ts c)"
proof (induction sends ts c rule: write_loop.induct)
  case (1 sends c)
  then show ?case by (simp add: call_inv_def)
next
  case (2 t ts c)
  then show ?case by simp
next
  case (3 r sends t ts c)
  from 3(2) have mem: "t \<in> set (outbound_transfers c)" by simp
  from call_inv_SendBuffer [OF 3(3) mem] have s: "call_inv (SendBuffer t r c)" .
  have a: "call_inv (DestroyConnection x (LOG l m c')) = call_inv c'" for x l m c'
    by (rule call_inv_cong) (simp_all add: DestroyConnection_def LOG_def)
  show ?case
  proof (cases "ok (fst r) \<and> snd r")
    case True
    from s 3(2) have "calls_inv (awaiting_response c) (calls (SendBuffer t r c)) (t # ts)
        (next_call_id c)"
      by (simp add: call_inv_def SendBuffer_fields)
    then have "calls_inv (awaiting_response c) (calls (SendBuffer t r c)) ts (next_call_id c)"
      by (rule calls_inv_subqueue) auto
    then have "call_inv ((SendBuffer t r c)\<lparr>outbound_transfers := ts\<rparr>)"
      by (simp add: call_inv_def SendBuffer_fields)
    with 3(1) True show ?thesis by (simp add: Let_def)
  next
    case False
    with s a show ?thesis by (auto simp: Let_def)
  qed
qed

lemma call_inv_WriteHandler: "call_inv c \<Longrightarrow> call_inv (WriteHandler ev_error sends c)"
proof -
  assume inv: "call_inv c"
  have a: "call_inv (DestroyConnection s c) = call_inv c" for s
    by (rule call_inv_cong) (simp_all add: DestroyConnection_def)
  have b: "call_inv ((LOG l m c)\<lparr>write_io_active := False\<rparr>) = call_inv c" for l m
    by (rule call_inv_cong) (simp_all add: LOG_def)
  from inv a b call_inv_write_loop [OF refl inv, of sends] show ?thesis
    by (simp add: WriteHandler_def)
qed

lemma call_inv_apply_event:
  assumes "call_inv c" and "enabled e c"
    and "1 \<le> next_call_id c" and "next_call_id (apply_event e c) \<le> 2147483648"
  shows "call_inv (apply_event e c)"
proof (cases e)
  case EvEpollRegister
  have "call_inv (EpollRegister c) = call_inv c"
    by (rule call_inv_cong) (simp_all add: EpollRegister_def Let_def)
  with assms EvEpollRegister show ?thesis by simp
next
  case EvMarkNegotiationComplete
  have "call_inv (MarkNegotiationComplete c) = call_inv c"
    by (rule call_inv_cong) (simp_all add: MarkNegotiationComplete_def)
  with assms EvMarkNegotiationComplete show ?thesis by simp
next
  case (EvQueueOutboundCall h)
  from assms(4) have "ok (shutdown_status c) \<Longrightarrow> next_call_id c < 2147483648"
    by (simp add: EvQueueOutboundCall QueueOutboundCall_next_call_id)
  with assms EvQueueOutboundCall show ?thesis
    by (simp add: call_inv_QueueOutboundCall)
next
  case (EvQueueResponse call response)
  with assms show ?thesis by (simp add: call_inv_QueueResponseForCall)
next
  case (EvTimeout i)
  with assms show ?thesis by (simp add: call_inv_HandleOutboundCallTimeout)
next
  case (EvReadReady ev_error recv)
  with assms show ?thesis by (simp add: call_inv_Serve call_inv_ReadHandler)
next
  case (EvWriteReady ev_error sends)
  with assms show ?thesis by (simp add: call_inv_Serve call_inv_WriteHandler)
next
  case (EvShutdown s)
  with assms show ?thesis by (simp add: call_inv_Shutdown)
qed

lemma next_call_id_step: "next_call_id c \<le> next_call_id (apply_event e c)"
  by (cases e) (simp_all add: apply_event_next_call_id del: apply_event.simps)

lemma next_call_id_run: "run evs c = Some c' \<Longrightarrow> next_call_id c \<le> next_call_id c'"
proof (induction evs arbitrary: c)
  case Nil
  then show ?case by simp
next
  case (Cons e evs)
  from Cons.prems have "run evs (apply_event e c) = Some c'" by (simp split: if_splits)
  from Cons.IH [OF this] next_call_id_step [of c e] show ?case by simp
qed

lemma call_inv_run:
  "run evs c = Some c' \<Longrightarrow> call_inv c \<Longrightarrow> 1 \<le> next_call_id c \<Longrightarrow>
   next_call_id c' \<le> 2147483648 \<Longrightarrow> call_inv c'"
proof (induction evs arbitrary: c)
  case Nil
  then show ?case by simp
next
  case (Cons e evs)
  from Cons.prems(1) have en: "enabled e c" and r: "run evs (apply_event e c) = Some c'"
    by (simp_all split: if_splits)
  from next_call_id_run [OF r] Cons.prems(4)
  have hi: "next_call_id (apply_event e c) \<le> 2147483648" by simp
  from next_call_id_step [of c e] Cons.prems(3)
  have lo: "1 \<le> next_call_id (apply_event e c)" by simp
  from call_inv_apply_event [OF Cons.prems(2) en Cons.prems(3) hi]
  have "call_inv (apply_event e c)" .
  from Cons.IH [OF r this lo Cons.prems(4)] show ?case .
qed

lemma call_inv_Connection: "\<forall>h. fresh_call (store h) \<Longrightarrow> call_inv (Connection p d store)"
  by (simp add: call_inv_def calls_inv_def Connection_def fresh_call_def terminal_edges_def)

lemma adds_refl: "adds P a a"
  by (simp add: adds_def)

lemma adds_trans:
  assumes "adds P a b" and "adds P b c"
  shows "adds P a c"
proof -
  from assms obtain n1 n2 where 1: "history b = history a @ n1" "\<forall>s. Failed s \<in> set n1 \<longrightarrow> P s"
    and 2: "history c = history b @ n2" "\<forall>s. Failed s \<in> set n2 \<longrightarrow> P s"
    and 3: "serialize_status c = serialize_status a"
    unfolding adds_def by auto
  from 1 2 have "history c = history a @ (n1 @ n2)" "\<forall>s. Failed s \<in> set (n1 @ n2) \<longrightarrow> P s"
    by auto
  with 3 show ?thesis unfolding adds_def by blast
qed

lemma adds_mono: "adds P a b \<Longrightarrow> (\<And>s. P s \<Longrightarrow> Q s) \<Longrightarrow> adds Q a b"
  unfolding adds_def by blast

lemma adds_one:
  "serialize_status b = serialize_status a \<Longrightarrow> history b = history a @ [e] \<Longrightarrow>
   (\<And>s. e = Failed s \<Longrightarrow> P s) \<Longrightarrow> adds P a b"
  unfolding adds_def by auto

lemma adds_upd:
  "adds P (st h) (f (st h)) \<Longrightarrow> adds P (st h) ((st(h' := f (st h'))) h)"
  by (cases "h' = h") (simp_all add: adds_refl)

lemma adds_edges:
  "adds P a (SetResponse i b a)" "adds P a (SetTimedOut a)" "adds P a (SetQueued a)"
  "adds P a (set_call_id i a)" "P s \<Longrightarrow> adds P a (SetFailed s a)"
  unfolding adds_def
  by (simp_all add: SetResponse_def SetTimedOut_def SetQueued_def set_call_id_def SetFailed_def)

lemma adds_sent_only: "sent_only st st' \<Longrightarrow> adds P (st h) (st' h)"
proof -
  assume "sent_only st st'"
  then obtain n where "st' h = (st h)\<lparr>history := history (st h) @ replicate n Sent\<rparr>"
    unfolding sent_only_def by blast
  then show ?thesis unfolding adds_def by auto
qed

lemma fail_awaiting_serialize_status:
  "serialize_status (fail_awaiting s m store h) = serialize_status (store h)"
proof (induction m arbitrary: store)
  case Nil
  show ?case by simp
next
  case (Cons p m)
  obtain i e where p: "p = (i, e)" by (cases p)
  show ?case by (cases "car_call e") (simp_all add: p Cons.IH SetFailed_def)
qed

lemma adds_fail_awaiting: "adds (\<lambda>x. x = s) (st h) (fail_awaiting s m st h)"
  unfolding adds_def
  by (simp add: fail_awaiting_serialize_status fail_awaiting_history)

lemma adds_Shutdown: "adds (\<lambda>x. x = s) (calls c h) (calls (Shutdown s c) h)"
  by (simp add: Shutdown_fields adds_fail_awaiting)

lemma adds_Serve:
  "adds (\<lambda>x. x \<in> set (served c)) (calls c h) (calls (ServeDestroyRequests c) h)"
proof (cases "destroy_requests c")
  case Nil
  then show ?thesis by (simp add: ServeDestroyRequests_def adds_refl)
next
  case (Cons s rest)
  with adds_Shutdown [of s "c\<lparr>destroy_requests := []\<rparr>" h] show ?thesis
    by (simp add: ServeDestroyRequests_def served_def)
qed

lemma Serve_served:
  "ServeDestroyRequests c =
     (case served c of [] \<Rightarrow> c | s # rest \<Rightarrow> Shutdown s (c\<lparr>destroy_requests := []\<rparr>))"
  by (cases "destroy_requests c") (simp_all add: ServeDestroyRequests_def served_def)

lemma shutdown_status_Serve:
  "shutdown_status (ServeDestroyRequests c) = shutdown_status c
   \<or> shutdown_status (ServeDestroyRequests c) \<in> set (served c)"
  by (cases "destroy_requests c") (simp_all add: ServeDestroyRequests_def served_def Shutdown_fields)

lemma shutdown_status_WriteHandler:
  "shutdown_status (WriteHandler ev_error sends c) = shutdown_status c"
  by (simp add: WriteHandler_def DestroyConnection_def LOG_def write_loop_fields)

lemma shutdown_status_step:
  "shutdown_status (apply_event e c) = shutdown_status c
   \<or> shutdown_status (apply_event e c) \<in> set (shutdown_arguments e c)"
proof (cases e)
  case (EvTimeout i)
  with frame_read_HandleOutboundCallTimeout [of c i] show ?thesis
    by (simp add: frame_read_def)
next
  case (EvReadReady ev_error recv)
  with frame_read_ReadHandler [of c ev_error recv]
    shutdown_status_Serve [of "ReadHandler ev_error recv c"]
  show ?thesis by (simp add: frame_read_def)
next
  case (EvWriteReady ev_error sends)
  with shutdown_status_Serve [of "WriteHandler ev_error sends c"] show ?thesis
    by (simp add: shutdown_status_WriteHandler)
qed (simp_all add: EpollRegister_def MarkNegotiationComplete_def Let_def Shutdown_fields
      shutdown_status_QueueOutboundCall QueueResponseForCall_def new_OutboundTransfer_def
      QueueOutbound_fields)

lemma adds_HandleCallResponse: "adds (\<lambda>x. False) (calls c h) (calls (HandleCallResponse t c) h)"
proof -
  have "calls (HandleCallResponse t c) = calls c
        \<or> (\<exists>h'. calls (HandleCallResponse t c)
                  = (calls c)(h' := SetResponse (parsed_call_id t) (parsed_body t) (calls c h')))"
    by (simp add: HandleCallResponse_def CHECK_failed_def EraseKeyReturnValuePtr_def LOG_def
        update_call_def Let_def split: option.split) blast
  then show ?thesis
  proof
    assume "calls (HandleCallResponse t c) = calls c"
    then show ?thesis by (simp add: adds_refl)
  next
    assume "\<exists>h'. calls (HandleCallResponse t c)
                  = (calls c)(h' := SetResponse (parsed_call_id t) (parsed_body t) (calls c h'))"
    then obtain h' where "calls (HandleCallResponse t c)
          = (calls c)(h' := SetResponse (parsed_call_id t) (parsed_body t) (calls c h'))" ..
    then show ?thesis
      using adds_upd [of "\<lambda>x. False" "calls c" h
          "SetResponse (parsed_call_id t) (parsed_body t)" h', OF adds_edges(1)]
      by simp
  qed
qed

lemma adds_HandleFinishedTransfer:
  "adds (\<lambda>x. False) (calls c h) (calls (HandleFinishedTransfer c) h)"
proof (cases "protocol c")
  case YB
  have "calls (YB_HandleIncomingCall t c') = calls c'" for t c'
    by (simp add: YB_HandleIncomingCall_def InsertIfNotPresent_def DestroyConnection_def
        LOG_def QueueInboundCall_def Let_def split: option.split)
  with YB adds_HandleCallResponse [of "c\<lparr>inbound := None\<rparr>" h] show ?thesis
    by (simp add: HandleFinishedTransfer_def YB_HandleFinishedTransfer_def CHECK_failed_def
        adds_refl split: option.split direction.split)
next
  case Redis
  with frame_Redis_HandleFinishedTransfer [of c] show ?thesis
    by (simp add: HandleFinishedTransfer_def frame_def adds_refl)
next
  case CQL
  with frame_CQL_HandleFinishedTransfer [of c] show ?thesis
    by (simp add: HandleFinishedTransfer_def frame_def adds_refl)
qed

lemma adds_ReadHandler: "adds (\<lambda>x. False) (calls c h) (calls (ReadHandler ev_error recv c) h)"
proof -
  obtain s e t where r: "recv = (s, e, t)" by (cases recv)
  from adds_HandleFinishedTransfer [of "c\<lparr>inbound := Some t\<rparr>" h] show ?thesis
    by (simp add: r ReadHandler_def DestroyConnection_def LOG_def Let_def adds_refl)
qed

lemma adds_WriteHandler: "adds (\<lambda>x. False) (calls c h) (calls (WriteHandler ev_error sends c) h)"
  using adds_sent_only [OF write_loop_calls, where P = "\<lambda>x. False" and c1 = c and sends1 = sends
      and ts1 = "outbound_transfers c" and h = h]
  by (simp add: WriteHandler_def DestroyConnection_def LOG_def adds_refl)

lemma adds_HandleOutboundCallTimeout:
  "adds (\<lambda>x. False) (calls c h) (calls (HandleOutboundCallTimeout i c) h)"
proof -
  have "calls (HandleOutboundCallTimeout i c) = calls c
        \<or> (\<exists>h'. calls (HandleOutboundCallTimeout i c) = (calls c)(h' := SetTimedOut (calls c h')))"
    by (simp add: HandleOutboundCallTimeout_def update_call_def Let_def split: option.split)
      blast
  then show ?thesis
  proof
    assume "calls (HandleOutboundCallTimeout i c) = calls c"
    then show ?thesis by (simp add: adds_refl)
  next
    assume "\<exists>h'. calls (HandleOutboundCallTimeout i c) = (calls c)(h' := SetTimedOut (calls c h'))"
    then obtain h' where "calls (HandleOutboundCallTimeout i c)
        = (calls c)(h' := SetTimedOut (calls c h'))" ..
    then show ?thesis
      using adds_upd [of "\<lambda>x. False" "calls c" h SetTimedOut h', OF adds_edges(2)]
      by simp
  qed
qed

lemma calls_QueueOutboundCall:
  "calls (QueueOutboundCall h c) =
     (calls c)(h :=
        (if \<not> ok (shutdown_status c) then SetFailed (shutdown_status c) (calls c h)
         else if \<not> ok (serialize_status (calls c h))
         then SetFailed (serialize_status (calls c h))
                (set_call_id (int32_t (next_call_id c)) (calls c h))
         else SetQueued (set_call_id (int32_t (next_call_id c)) (calls c h))))"
  by (simp add: QueueOutboundCall_def GetNextCallId_def update_call_def Let_def
      new_OutboundTransfer_def QueueOutbound_fields set_call_id_def)

lemma adds_QueueOutboundCall:
  "adds (\<lambda>x. (x = serialize_status (calls c h) \<or> x = shutdown_status c) \<and> \<not> ok x)
     (calls c h) (calls (QueueOutboundCall h' c) h)"
proof (cases "h' = h")
  case False
  then show ?thesis by (simp add: calls_QueueOutboundCall adds_refl)
next
  case True
  let ?P = "\<lambda>x. (x = serialize_status (calls c h) \<or> x = shutdown_status c) \<and> \<not> ok x"
  show ?thesis
  proof (cases "ok (shutdown_status c)")
    case False
    then have "adds ?P (calls c h) (SetFailed (shutdown_status c) (calls c h))"
      by (intro adds_edges(5)) simp
    with True False show ?thesis by (simp add: calls_QueueOutboundCall)
  next
    case open_conn: True
    show ?thesis
    proof (cases "ok (serialize_status (calls c h))")
      case False
      then have "adds ?P (calls c h)
          (SetFailed (serialize_status (calls c h))
             (set_call_id (int32_t (next_call_id c)) (calls c h)))"
        by (intro adds_trans [OF adds_edges(4) adds_edges(5)]) (simp add: set_call_id_def)
      with True open_conn False show ?thesis by (simp add: calls_QueueOutboundCall)
    next
      case ser: True
      have "adds ?P (calls c h) (SetQueued (set_call_id (int32_t (next_call_id c)) (calls c h)))"
        by (rule adds_trans [OF adds_edges(4) adds_edges(3)])
      with True open_conn ser show ?thesis by (simp add: calls_QueueOutboundCall)
    qed
  qed
qed

lemma adds_apply_event:
  "adds (\<lambda>x. ((x = serialize_status (calls c h) \<or> x = shutdown_status c) \<and> \<not> ok x)
              \<or> x \<in> set (shutdown_arguments e c))
     (calls c h) (calls (apply_event e c) h)"
  (is "adds ?Q _ _")
proof (cases e)
  case EvEpollRegister
  then show ?thesis by (simp add: EpollRegister_def Let_def adds_refl)
next
  case EvMarkNegotiationComplete
  then show ?thesis by (simp add: MarkNegotiationComplete_def adds_refl)
next
  case (EvQueueOutboundCall h')
  have "adds ?Q (calls c h) (calls (QueueOutboundCall h' c) h)"
    by (rule adds_mono [OF adds_QueueOutboundCall]) blast
  with EvQueueOutboundCall show ?thesis by simp
next
  case (EvQueueResponse call response)
  then show ?thesis
    by (simp add: QueueResponseForCall_def new_OutboundTransfer_def QueueOutbound_fields adds_refl)
next
  case (EvTimeout i)
  have "adds ?Q (calls c h) (calls (HandleOutboundCallTimeout i c) h)"
    by (rule adds_mono [OF adds_HandleOutboundCallTimeout]) blast
  with EvTimeout show ?thesis by simp
next
  case (EvReadReady ev_error recv)
  have a: "adds ?Q (calls c h) (calls (ReadHandler ev_error recv c) h)"
    by (rule adds_mono [OF adds_ReadHandler]) blast
  have "adds ?Q (calls (ReadHandler ev_error recv c) h)
          (calls (ServeDestroyRequests (ReadHandler ev_error recv c)) h)"
    by (rule adds_mono [OF adds_Serve]) (simp add: EvReadReady)
  from adds_trans [OF a this] EvReadReady show ?thesis by simp
next
  case (EvWriteReady ev_error sends)
  have a: "adds ?Q (calls c h) (calls (WriteHandler ev_error sends c) h)"
    by (rule adds_mono [OF adds_WriteHandler]) blast
  have "adds ?Q (calls (WriteHandler ev_error sends c) h)
          (calls (ServeDestroyRequests (WriteHandler ev_error sends c)) h)"
    by (rule adds_mono [OF adds_Serve]) (simp add: EvWriteReady)
  from adds_trans [OF a this] EvWriteReady show ?thesis by simp
next
  case (EvShutdown s)
  have "adds ?Q (calls c h) (calls (Shutdown s c) h)"
    by (rule adds_mono [OF adds_Shutdown]) (simp add: EvShutdown)
  with EvShutdown show ?thesis by simp
qed

lemma adds_run:
  "run evs c0 = Some c \<Longrightarrow>
   adds (\<lambda>x. ((x = serialize_status (calls c0 h) \<or> x = shutdown_status c0) \<and> \<not> ok x)
              \<or> x \<in> set (shutdown_statuses evs c0))
     (calls c0 h) (calls c h)"
proof (induction evs arbitrary: c0)
  case Nil
  then show ?case by (simp add: adds_refl)
next
  case (Cons e evs)
  let ?c1 = "apply_event e c0"
  let ?Q = "\<lambda>x. ((x = serialize_status (calls c0 h) \<or> x = shutdown_status c0) \<and> \<not> ok x)
              \<or> x \<in> set (shutdown_statuses (e # evs) c0)"
  from Cons.prems have r: "run evs ?c1 = Some c" by (simp split: if_splits)
  have ser: "serialize_status (calls ?c1 h) = serialize_status (calls c0 h)"
    using adds_apply_event [of c0 h e] by (simp add: adds_def)
  have a: "adds ?Q (calls c0 h) (calls ?c1 h)"
    by (rule adds_mono [OF adds_apply_event]) auto
  have b: "adds ?Q (calls ?c1 h) (calls c h)"
  proof (rule adds_mono [OF Cons.IH [OF r]])
    fix x
    assume x: "((x = serialize_status (calls ?c1 h) \<or> x = shutdown_status ?c1) \<and> \<not> ok x)
               \<or> x \<in> set (shutdown_statuses evs ?c1)"
    from shutdown_status_step [of e c0]
    have "x = shutdown_status ?c1 \<Longrightarrow>
          x = shutdown_status c0 \<or> x \<in> set (shutdown_arguments e c0)"
      by auto
    with x show "?Q x" by (auto simp: ser)
  qed
  from adds_trans [OF a b] show ?case .
qed

lemma history_run:
  "run evs c0 = Some c \<Longrightarrow> history (calls c0 h) \<noteq> [] \<Longrightarrow> history (calls c h) \<noteq> []"
  using adds_run [of evs c0 c h] by (auto simp: adds_def)

lemma queued_history:
  "run evs c0 = Some c \<Longrightarrow> EvQueueOutboundCall h \<in> set evs \<Longrightarrow> history (calls c h) \<noteq> []"
proof (induction evs arbitrary: c0)
  case Nil
  then show ?case by simp
next
  case (Cons e evs)
  from Cons.prems have r: "run evs (apply_event e c0) = Some c" by (simp split: if_splits)
  show ?case
  proof (cases "e = EvQueueOutboundCall h")
    case True
    have "history (calls (QueueOutboundCall h c0) h) \<noteq> []"
      by (simp add: calls_QueueOutboundCall SetFailed_def SetQueued_def)
    with history_run [OF r, of h] True show ?thesis by simp
  next
    case False
    with Cons.prems have "EvQueueOutboundCall h \<in> set evs" by simp
    from Cons.IH [OF r this] show ?thesis .
  qed
qed

text \<open>
  C3, as the code has it. For every call handed to \<^verbatim>\<open>QueueOutboundCall\<close> (each call
  once, as a new call), in every state the connection reaches while its call ids fit
  an \<^verbatim>\<open>int32_t\<close>: the call has at most one
  terminal edge; it has none while it is in the pending-call map with a live handle and
  exactly one otherwise; after \<^verbatim>\<open>Shutdown\<close> it has exactly one. When the edge is
  Failed, its status is the status, not OK, with which the serialization of this call
  failed, or a status that was passed to \<^verbatim>\<open>Shutdown\<close> on this connection.
\<close>

theorem outbound_call_completes_once:
  assumes r: "run evs (Connection p d store) = Some c"
    and fresh: "\<forall>h. fresh_call (store h)"
    and q: "EvQueueOutboundCall h \<in> set evs"
    and bound: "next_call_id c \<le> 2147483648"
  shows "length (terminal_edges (calls c h)) \<le> 1
    \<and> (pending h c \<longrightarrow> terminal_edges (calls c h) = [])
    \<and> (\<not> pending h c \<longrightarrow> length (terminal_edges (calls c h)) = 1)
    \<and> length (terminal_edges (calls (Shutdown s c) h)) = 1
    \<and> (\<forall>x. Failed x \<in> set (terminal_edges (calls c h)) \<longrightarrow>
          (x = serialize_status (store h) \<and> \<not> ok x)
          \<or> x \<in> set (shutdown_statuses evs (Connection p d store)))"
proof -
  have "1 \<le> next_call_id (Connection p d store)" by (simp add: Connection_def)
  from call_inv_run [OF r call_inv_Connection [OF fresh] this bound] have inv: "call_inv c" .
  from queued_history [OF r q] have ne: "history (calls c h) \<noteq> []" .
  have pd: "pending h c \<longleftrightarrow> (\<exists>p \<in> set (awaiting_response c). car_call (snd p) = Some h)"
    by (simp add: pending_def list_ex_iff)
  from inv have 1: "length (terminal_edges (calls c h)) \<le> 1"
    by (simp add: call_inv_def calls_inv_def)
  from inv have 2: "pending h c \<longrightarrow> terminal_edges (calls c h) = []"
    unfolding pd call_inv_def calls_inv_def by blast
  from inv ne have 3: "\<not> pending h c \<longrightarrow> length (terminal_edges (calls c h)) = 1"
    unfolding pd call_inv_def calls_inv_def by blast
  have 4: "length (terminal_edges (calls (Shutdown s c) h)) = 1"
  proof -
    from call_inv_Shutdown [OF inv] have i: "call_inv (Shutdown s c)" .
    from adds_Shutdown [of s c h] ne have "history (calls (Shutdown s c) h) \<noteq> []"
      by (auto simp: adds_def)
    with i show ?thesis
      unfolding call_inv_def calls_inv_def by (simp add: Shutdown_fields)
  qed
  have 5: "\<forall>x. Failed x \<in> set (terminal_edges (calls c h)) \<longrightarrow>
          (x = serialize_status (store h) \<and> \<not> ok x)
          \<or> x \<in> set (shutdown_statuses evs (Connection p d store))"
  proof (intro allI impI)
    fix x assume "Failed x \<in> set (terminal_edges (calls c h))"
    then have f: "Failed x \<in> set (history (calls c h))" by (simp add: terminal_edges_def)
    from fresh have e: "history (store h) = []" by (simp add: fresh_call_def)
    have o: "shutdown_status (Connection p d store) = OK" "calls (Connection p d store) h = store h"
      by (simp_all add: Connection_def)
    from adds_run [OF r, of h] obtain new where
      n: "history (calls c h) = history (store h) @ new"
      and p: "\<forall>x. Failed x \<in> set new \<longrightarrow>
            ((x = serialize_status (store h) \<or> x = OK) \<and> \<not> ok x)
            \<or> x \<in> set (shutdown_statuses evs (Connection p d store))"
      unfolding adds_def o by blast
    from f n e have "Failed x \<in> set new" by simp
    with p have "((x = serialize_status (store h) \<or> x = OK) \<and> \<not> ok x)
            \<or> x \<in> set (shutdown_statuses evs (Connection p d store))" by blast
    then show "(x = serialize_status (store h) \<and> \<not> ok x)
          \<or> x \<in> set (shutdown_statuses evs (Connection p d store))"
      by auto
  qed
  from 1 2 3 4 5 show ?thesis by blast
qed

theorem outbound_call_completes_once_witness:
  "run example_events example_client = Some finished_client
   \<and> fresh_call example_call
   \<and> EvQueueOutboundCall 1 \<in> set example_events
   \<and> next_call_id finished_client \<le> 2147483648
   \<and> terminal_edges (calls finished_client 0) = [TimedOut]
   \<and> terminal_edges (calls finished_client 1) = [Failed network_error]
   \<and> length (terminal_edges (calls finished_client 1)) = 1
   \<and> \<not> pending 1 finished_client
   \<and> shutdown_statuses example_events example_client = [network_error]
   \<and> network_error \<in> set (shutdown_statuses example_events example_client)"
proof -
  have r: "run example_events example_client = Some finished_client"
    by (simp add: example_events_def finished_client_def event_defs Shutdown_def
        delete_unfinished_def Abort_def fire_def)
  have f: "\<forall>h. fresh_call ((\<lambda>h. example_call) h)"
    by (simp add: fresh_call_def example_call_def)
  have q: "EvQueueOutboundCall 1 \<in> set example_events" by (simp add: example_events_def)
  have t: "terminal_edges (calls finished_client 1) = [Failed network_error]"
    "terminal_edges (calls finished_client 0) = [TimedOut]"
    by (simp_all add: finished_client_def terminal_edges_def event_defs)
  have b: "next_call_id finished_client \<le> 2147483648"
    by (simp add: finished_client_def event_defs)
  have np: "\<not> pending 1 finished_client"
    by (simp add: finished_client_def pending_def event_defs)
  have sh: "shutdown_statuses example_events example_client = [network_error]"
    by (simp add: example_events_def)
  note T = outbound_call_completes_once [OF r [unfolded example_client_def] f q b]
  from T have "\<forall>x. Failed x \<in> set (terminal_edges (calls finished_client 1)) \<longrightarrow>
      (x = serialize_status example_call \<and> \<not> ok x)
      \<or> x \<in> set (shutdown_statuses example_events (Connection YB CLIENT (\<lambda>h. example_call)))"
    by blast
  with t have "(network_error = serialize_status example_call \<and> \<not> ok network_error)
      \<or> network_error \<in> set (shutdown_statuses example_events example_client)"
    by (simp add: example_client_def)
  then have "network_error \<in> set (shutdown_statuses example_events example_client)"
    by (simp add: example_call_def network_error_def)
  with r f q b t np sh show ?thesis by simp
qed

text \<open>
  C3, as stated, fails: a call whose serialization fails is failed with the serialization
  status, here an InvalidArgument, on a connection that was never shut down.
\<close>

theorem outbound_call_failed_status_counterexample:
  "run [EvQueueOutboundCall 0] picky_client = Some (QueueOutboundCall 0 picky_client)
   \<and> terminal_edges (calls (QueueOutboundCall 0 picky_client) 0)
       = [Failed (Status InvalidArgument ''RPC header missing required fields'' [])]
   \<and> shutdown_status (QueueOutboundCall 0 picky_client) = OK
   \<and> shutdown_statuses [EvQueueOutboundCall 0] picky_client = []"
  by (simp add: picky_client_def unserializable_call_def terminal_edges_def event_defs)

end
